theory Spec2Isabelle
  imports Main "HOL-Library.Multiset"
begin

section \<open>Run configuration and machine arithmetic\<close>

text \<open>
  The three programs (\<open>hist_threads.cpp\<close>, \<open>hist_openmp.cpp\<close>, \<open>hist_seq.cpp\<close>) share
  the struct \<open>Args\<close>. \<open>N\<close> is a \<open>uint64_t\<close>, \<open>seed\<close> an \<open>unsigned\<close>; both are naturals
  here and every unsigned operation of the source is written with its modulus. The
  \<open>int\<close> fields are integers; the one signed computation that can leave the range of
  \<open>int\<close> (the number of bins) is checked and is a fault of the model.
\<close>

record Args =
  N :: nat
  minv :: int
  maxv :: int
  seed :: nat
  rep :: int
  variant :: string
  threads :: int

datatype fault = DivByZero | OutOfBounds | SignedOverflow | Deadlock

definition u64 :: "nat \<Rightarrow> nat" where
  "u64 x = x mod 18446744073709551616"

definition u32 :: "nat \<Rightarrow> nat" where
  "u32 x = x mod 4294967296"

definition INT_MAX :: int where
  "INT_MAX = 2147483647"

text \<open>\<open>if (a.maxv < a.minv) swap(a.maxv, a.minv);\<close>\<close>

definition normalise :: "Args \<Rightarrow> Args" where
  "normalise a = (if maxv a < minv a then a\<lparr>minv := maxv a, maxv := minv a\<rparr> else a)"

text \<open>\<open>const int bins = a.maxv - a.minv + 1;\<close> Signed overflow is undefined in C++.\<close>

definition bins_of :: "Args \<Rightarrow> fault + int" where
  "bins_of a =
     (if maxv a - minv a + 1 \<le> INT_MAX \<and> - INT_MAX - 1 \<le> maxv a - minv a
      then Inr (maxv a - minv a + 1) else Inl SignedOverflow)"

section \<open>The partitioner of the thread backend\<close>

text \<open>
  \<open>chunk = (a.N + (uint64_t)T - 1) / (uint64_t)T\<close>, and worker \<open>t\<close> runs
  \<open>for (i = start; i < end; ++i)\<close> with \<open>start = (uint64_t)t * chunk\<close> and
  \<open>end = min<uint64_t>(a.N, (uint64_t)(t+1) * chunk)\<close>.
\<close>

definition chunk_of :: "nat \<Rightarrow> nat \<Rightarrow> fault + nat" where
  "chunk_of n T = (if T = 0 then Inl DivByZero else Inr (u64 (n + T - 1) div T))"

definition start_of :: "nat \<Rightarrow> nat \<Rightarrow> nat" where
  "start_of chunk t = u64 (t * chunk)"

definition end_of :: "nat \<Rightarrow> nat \<Rightarrow> nat \<Rightarrow> nat" where
  "end_of n chunk t = min n (u64 ((t + 1) * chunk))"

definition span :: "nat \<Rightarrow> nat \<Rightarrow> nat \<Rightarrow> nat list" where
  "span n chunk t = [start_of chunk t ..< end_of n chunk t]"

section \<open>Workers\<close>

text \<open>
  A parallel phase hands each worker index a task and waits for all of them.
  \<open>for_each\<close> runs the tasks one after the other in index order, stopping at the
  first fault: it is the source's own \<open>for (int t = 0; t < T; ++t)\<close> where the loop is
  sequential, and one schedule among the possible ones where the tasks are threads. The
  other schedules of the generation phase and of the counting phases that share the
  array are the step relations of the section on interleaved executions.
\<close>

fun for_each :: "(nat \<Rightarrow> 's \<Rightarrow> fault + 's) \<Rightarrow> nat list \<Rightarrow> 's \<Rightarrow> fault + 's" where
  "for_each w [] s = Inr s"
| "for_each w (t # ts) s = (case w t s of Inl e \<Rightarrow> Inl e | Inr s' \<Rightarrow> for_each w ts s')"

section \<open>Generation\<close>

text \<open>
  The generator is the standard library's: \<open>mt19937_64 rng(s)\<close> with
  \<open>uniform_int_distribution<int> dist(lo, hi)\<close>. It is a parameter \<open>draw\<close> of the model:
  \<open>draw s lo hi k\<close> is the value of the call number \<open>k\<close> (from 0) of \<open>dist(rng)\<close>
  on a fresh engine seeded with \<open>s\<close>. A worker's engine state is the number of calls
  made so far.
\<close>

type_synonym stream = "nat \<Rightarrow> int \<Rightarrow> int \<Rightarrow> nat \<Rightarrow> int"

definition draws_in_range :: "stream \<Rightarrow> bool" where
  "draws_in_range draw = (\<forall>s lo hi k. lo \<le> hi \<longrightarrow> lo \<le> draw s lo hi k \<and> draw s lo hi k \<le> hi)"

text \<open>\<open>for (i = start; i < end; ++i) data[i] = dist(rng);\<close>\<close>

fun fill :: "(nat \<Rightarrow> int) \<Rightarrow> nat \<Rightarrow> nat list \<Rightarrow> int list \<Rightarrow> fault + int list" where
  "fill g k [] data = Inr data"
| "fill g k (i # js) data =
     (if i < length data then fill g (Suc k) js (data[i := g k]) else Inl OutOfBounds)"

text \<open>\<open>a.seed + (unsigned)t * 1337u + (unsigned)r * 17u\<close> in \<open>unsigned\<close> arithmetic.\<close>

definition worker_seed :: "nat \<Rightarrow> nat \<Rightarrow> nat \<Rightarrow> nat" where
  "worker_seed s t r = u32 (s + t * 1337 + r * 17)"

definition gen_worker :: "stream \<Rightarrow> Args \<Rightarrow> nat \<Rightarrow> nat \<Rightarrow> nat \<Rightarrow> int list \<Rightarrow> fault + int list" where
  "gen_worker draw a r chunk t data =
     fill (draw (worker_seed (seed a) t r) (minv a) (maxv a)) 0 (span (N a) chunk t) data"

text \<open>\<open>vector<int> data(a.N)\<close> is zero-initialised; the \<open>T\<close> workers fill it.\<close>

definition threads_gen :: "stream \<Rightarrow> Args \<Rightarrow> nat \<Rightarrow> nat \<Rightarrow> nat \<Rightarrow> fault + int list" where
  "threads_gen draw a T chunk r =
     for_each (gen_worker draw a r chunk) [0..<T] (replicate (N a) 0)"

section \<open>Counting\<close>

text \<open>
  \<open>const int idx = data[i] - a.minv;\<close> followed by an access to cell \<open>idx\<close> of an
  array of \<open>bins\<close> cells. Reading \<open>data\<close> or touching the array out of range is
  undefined behaviour: there is no bin then.
\<close>

definition bin_index :: "int list \<Rightarrow> int \<Rightarrow> nat \<Rightarrow> nat \<Rightarrow> nat option" where
  "bin_index data mn bins i =
     (if i < length data \<and> 0 \<le> data ! i - mn \<and> nat (data ! i - mn) < bins
      then Some (nat (data ! i - mn)) else None)"

text \<open>
  \<open>++hist[idx]\<close> (and \<open>hist[idx].fetch_add(1)\<close>, \<open>#pragma omp atomic update\<close>). The
  counters are 64 bits wide; a counter never exceeds the number of items counted, so
  they are naturals here.
\<close>

definition bump :: "int list \<Rightarrow> int \<Rightarrow> nat \<Rightarrow> nat list \<Rightarrow> fault + nat list" where
  "bump data mn i h =
     (case bin_index data mn (length h) i of
        None \<Rightarrow> Inl OutOfBounds
      | Some b \<Rightarrow> Inr (h[b := h ! b + 1]))"

fun count_range :: "int list \<Rightarrow> int \<Rightarrow> nat list \<Rightarrow> nat list \<Rightarrow> fault + nat list" where
  "count_range data mn [] h = Inr h"
| "count_range data mn (i # js) h =
     (case bump data mn i h of Inl e \<Rightarrow> Inl e | Inr h' \<Rightarrow> count_range data mn js h')"

subsection \<open>private\<close>

text \<open>
  Thread backend: \<open>locals[t]\<close> is worker \<open>t\<close>'s own array; after the joins the main
  thread adds every \<open>locals[t][b]\<close> to \<open>hist_global[b]\<close>.
\<close>

definition private_worker ::
  "int list \<Rightarrow> int \<Rightarrow> nat \<Rightarrow> nat \<Rightarrow> nat \<Rightarrow> nat list list \<Rightarrow> fault + nat list list" where
  "private_worker data mn n chunk t locals =
     (if t < length locals
      then (case count_range data mn (span n chunk t) (locals ! t) of
              Inl e \<Rightarrow> Inl e
            | Inr l \<Rightarrow> Inr (locals[t := l]))
      else Inl OutOfBounds)"

text \<open>\<open>for (int b = 0; b < bins; ++b) hist_global[b] += row[b];\<close>\<close>

fun add_row :: "nat list \<Rightarrow> nat list \<Rightarrow> nat list \<Rightarrow> fault + nat list" where
  "add_row row [] h = Inr h"
| "add_row row (b # bs) h =
     (if b < length h \<and> b < length row then add_row row bs (h[b := h ! b + row ! b])
      else Inl OutOfBounds)"

definition merge_local :: "nat list list \<Rightarrow> nat \<Rightarrow> nat \<Rightarrow> nat list \<Rightarrow> fault + nat list" where
  "merge_local locals bins t h =
     (if t < length locals then add_row (locals ! t) [0..<bins] h else Inl OutOfBounds)"

definition hist_private :: "int list \<Rightarrow> int \<Rightarrow> nat \<Rightarrow> nat \<Rightarrow> nat \<Rightarrow> nat \<Rightarrow> fault + nat list" where
  "hist_private data mn n chunk T bins =
     (case for_each (private_worker data mn n chunk) [0..<T] (replicate T (replicate bins 0)) of
        Inl e \<Rightarrow> Inl e
      | Inr locals \<Rightarrow> for_each (merge_local locals bins) [0..<T] (replicate bins 0))"

subsection \<open>atomic\<close>

definition hist_atomic :: "int list \<Rightarrow> int \<Rightarrow> nat \<Rightarrow> nat \<Rightarrow> nat \<Rightarrow> nat \<Rightarrow> fault + nat list" where
  "hist_atomic data mn n chunk T bins =
     for_each (\<lambda>t h. count_range data mn (span n chunk t) h) [0..<T] (replicate bins 0)"

subsection \<open>mutex\<close>

text \<open>
  \<open>lock_guard<mutex> lk(bin_mtx[idx]); ++hist[idx];\<close> The state is the array and
  one flag per bin, true while the bin's mutex is held. Locking a held mutex from the
  schedule of \<open>for_each\<close> would never return.
\<close>

definition locked_bump ::
  "int list \<Rightarrow> int \<Rightarrow> nat \<Rightarrow> nat list \<times> bool list \<Rightarrow> fault + nat list \<times> bool list" where
  "locked_bump data mn i s =
     (case s of (h, m) \<Rightarrow>
        (case bin_index data mn (length m) i of
           None \<Rightarrow> Inl OutOfBounds
         | Some b \<Rightarrow>
             if m ! b then Inl Deadlock
             else (case bump data mn i h of
                     Inl e \<Rightarrow> Inl e
                   | Inr h' \<Rightarrow> Inr (h', (m[b := True])[b := False]))))"

fun count_locked ::
  "int list \<Rightarrow> int \<Rightarrow> nat list \<Rightarrow> nat list \<times> bool list \<Rightarrow> fault + nat list \<times> bool list" where
  "count_locked data mn [] s = Inr s"
| "count_locked data mn (i # js) s =
     (case locked_bump data mn i s of Inl e \<Rightarrow> Inl e | Inr s' \<Rightarrow> count_locked data mn js s')"

definition hist_mutex :: "int list \<Rightarrow> int \<Rightarrow> nat \<Rightarrow> nat \<Rightarrow> nat \<Rightarrow> nat \<Rightarrow> fault + nat list" where
  "hist_mutex data mn n chunk T bins =
     (case for_each (\<lambda>t s. count_locked data mn (span n chunk t) s) [0..<T]
             (replicate bins 0, replicate bins False) of
        Inl e \<Rightarrow> Inl e
      | Inr s \<Rightarrow> Inr (fst s))"

section \<open>The harness\<close>

text \<open>
  One line of output per repetition. The three durations are wall-clock measurements
  and are not part of the model.
\<close>

record csv_row =
  c_backend :: string
  c_variant :: string
  c_threads :: int
  c_N :: nat
  c_bins :: int
  c_min :: int
  c_max :: int
  c_seed :: nat
  c_sum_hist :: nat

text \<open>
  What a run does, in order: the dataset a generation phase has produced and the array a
  counting phase has produced (the harness's states GENERATED and COUNTED), and the
  lines written to the two output streams.
\<close>

datatype event = Generated "int list" | Counted "nat list" | Stdout csv_row | Stderr string

datatype outcome = Exit int | Crashed fault

datatype ctl = Next | Stop outcome

text \<open>\<open>accumulate(hist.begin(), hist.end(), uint64_t{0})\<close>\<close>

definition accumulate :: "nat list \<Rightarrow> nat" where
  "accumulate h = u64 (sum_list h)"

text \<open>
  The end of the loop body: \<open>cout << backend << "," << variant << "," << T << ...
  << sum_hist << "\n"\<close>, after which the loop goes on.
\<close>

definition finish_rep :: "string \<Rightarrow> string \<Rightarrow> int \<Rightarrow> Args \<Rightarrow> int \<Rightarrow> nat \<Rightarrow> event list \<times> ctl" where
  "finish_rep backend var T a bins sum_hist =
     ([Stdout \<lparr>c_backend = backend, c_variant = var, c_threads = T, c_N = N a,
               c_bins = bins, c_min = minv a, c_max = maxv a, c_seed = seed a,
               c_sum_hist = sum_hist\<rparr>], Next)"

text \<open>\<open>for (int r = 0; r < a.rep; ++r) { ... }  return 0;\<close>\<close>

fun rep_loop :: "(nat \<Rightarrow> event list \<times> ctl) \<Rightarrow> nat list \<Rightarrow> event list \<times> outcome" where
  "rep_loop body [] = ([], Exit 0)"
| "rep_loop body (r # rs) =
     (case body r of
        (ev, Stop out) \<Rightarrow> (ev, out)
      | (ev, Next) \<Rightarrow> (case rep_loop body rs of (ev', out) \<Rightarrow> (ev @ ev', out)))"

definition unsupported :: "string \<Rightarrow> string" where
  "unsupported v = ''Variant no soportada: '' @ v @ '' (use: private | atomic | mutex)'' @ [CHR 0x0A]"

text \<open>The cast \<open>(uint64_t)T\<close> of an \<open>int\<close>.\<close>

definition u64_of_int :: "int \<Rightarrow> nat" where
  "u64_of_int i = nat (i mod 18446744073709551616)"

section \<open>hist\_threads.cpp\<close>

text \<open>
  \<open>main\<close> from the point where the command line has been read into \<open>Args\<close>. The
  request \<open>--csv-header\<close>, which prints the header line and returns 0 before anything
  else, and the parsing of the options are not part of the model.
\<close>

definition threads_hist :: "Args \<Rightarrow> int list \<Rightarrow> nat \<Rightarrow> nat \<Rightarrow> nat \<Rightarrow> fault + nat list" where
  "threads_hist a data chunk T bins =
     (if variant a = ''private'' then hist_private data (minv a) (N a) chunk T bins
      else if variant a = ''atomic'' then hist_atomic data (minv a) (N a) chunk T bins
      else hist_mutex data (minv a) (N a) chunk T bins)"

definition threads_rep :: "stream \<Rightarrow> Args \<Rightarrow> int \<Rightarrow> int \<Rightarrow> nat \<Rightarrow> event list \<times> ctl" where
  "threads_rep draw a T bins r =
     (case chunk_of (N a) (u64_of_int T) of
        Inl e \<Rightarrow> ([], Stop (Crashed e))
      | Inr chunk \<Rightarrow>
          (case threads_gen draw a (nat T) chunk r of
             Inl e \<Rightarrow> ([], Stop (Crashed e))
           | Inr data \<Rightarrow>
               (case threads_hist a data chunk (nat T) (nat bins) of
                  Inl e \<Rightarrow> ([Generated data], Stop (Crashed e))
                | Inr h \<Rightarrow>
                    (case finish_rep ''threads'' (variant a) T a bins (accumulate h) of
                       (ev, c) \<Rightarrow> (Generated data # Counted h # ev, c)))))"

definition threads_main :: "stream \<Rightarrow> Args \<Rightarrow> event list \<times> outcome" where
  "threads_main draw a0 =
     (let a = normalise a0 in
      case bins_of a of
        Inl e \<Rightarrow> ([], Crashed e)
      | Inr bins \<Rightarrow>
          let a = (if threads a \<le> 0 then a\<lparr>threads := 4\<rparr> else a);
              T = threads a
          in if variant a \<noteq> ''private'' \<and> variant a \<noteq> ''atomic'' \<and> variant a \<noteq> ''mutex''
             then ([Stderr (unsupported (variant a))], Exit 2)
             else rep_loop (threads_rep draw a T bins) [0..<nat (rep a)])"

section \<open>hist\_seq.cpp\<close>

text \<open>
  \<open>mt19937_64 rng(a.seed + (unsigned)r * 17u);\<close> and
  \<open>for (uint64_t i = 0; i < a.N; ++i) data[i] = dist(rng);\<close>
\<close>

definition seq_gen :: "stream \<Rightarrow> Args \<Rightarrow> nat \<Rightarrow> fault + int list" where
  "seq_gen draw a r =
     fill (draw (u32 (seed a + r * 17)) (minv a) (maxv a)) 0 [0..<N a] (replicate (N a) 0)"

text \<open>\<open>for (uint64_t i = 0; i < a.N; ++i) { const int idx = data[i] - a.minv; ++hist[idx]; }\<close>\<close>

definition seq_hist :: "Args \<Rightarrow> int list \<Rightarrow> nat \<Rightarrow> fault + nat list" where
  "seq_hist a data bins = count_range data (minv a) [0..<N a] (replicate bins 0)"

definition seq_rep :: "stream \<Rightarrow> Args \<Rightarrow> int \<Rightarrow> nat \<Rightarrow> event list \<times> ctl" where
  "seq_rep draw a bins r =
     (case seq_gen draw a r of
        Inl e \<Rightarrow> ([], Stop (Crashed e))
      | Inr data \<Rightarrow>
          (case seq_hist a data (nat bins) of
             Inl e \<Rightarrow> ([Generated data], Stop (Crashed e))
           | Inr h \<Rightarrow>
               (case finish_rep ''seq'' ''baseline'' 1 a bins (accumulate h) of
                  (ev, c) \<Rightarrow> (Generated data # Counted h # ev, c))))"

definition seq_main :: "stream \<Rightarrow> Args \<Rightarrow> event list \<times> outcome" where
  "seq_main draw a0 =
     (let a = normalise a0 in
      case bins_of a of
        Inl e \<Rightarrow> ([], Crashed e)
      | Inr bins \<Rightarrow> rep_loop (seq_rep draw a bins) [0..<nat (rep a)])"

section \<open>hist\_openmp.cpp\<close>

text \<open>
  Two things are decided by the OpenMP runtime and not by the program: the size of the
  team of a parallel region, and which iterations of a \<open>schedule(static)\<close> loop a thread
  runs. Both are parameters: \<open>rt_team rt k\<close> is the team size when the last
  \<open>omp_set_num_threads\<close> passed \<open>k\<close> (\<open>None\<close>: never called), and
  \<open>rt_static rt n T tid\<close> lists the iterations of a loop of \<open>n\<close> iterations that thread
  \<open>tid\<close> of \<open>T\<close> runs, in the order it runs them.
\<close>

record omp_rt =
  rt_team :: "nat option \<Rightarrow> nat"
  rt_static :: "nat \<Rightarrow> nat \<Rightarrow> nat \<Rightarrow> nat list"

text \<open>Every iteration is run once, by one thread of the team.\<close>

definition static_covers :: "omp_rt \<Rightarrow> nat \<Rightarrow> nat \<Rightarrow> bool" where
  "static_covers rt n T = (mset (concat (map (rt_static rt n T) [0..<T])) = mset [0..<n])"

text \<open>\<open>if (a.threads > 0) omp_set_num_threads(a.threads);\<close>\<close>

definition omp_team :: "omp_rt \<Rightarrow> Args \<Rightarrow> nat" where
  "omp_team rt a = rt_team rt (if 0 < threads a then Some (nat (threads a)) else None)"

text \<open>The trip count of \<open>for (long long i = 0; i < (long long)a.N; ++i)\<close>.\<close>

definition ll_trip :: "nat \<Rightarrow> nat" where
  "ll_trip n = (if n < 9223372036854775808 then n else 0)"

definition omp_gen_worker :: "stream \<Rightarrow> omp_rt \<Rightarrow> Args \<Rightarrow> nat \<Rightarrow> nat \<Rightarrow> nat \<Rightarrow> int list \<Rightarrow> fault + int list" where
  "omp_gen_worker draw rt a r T tid data =
     fill (draw (worker_seed (seed a) tid r) (minv a) (maxv a)) 0
       (rt_static rt (ll_trip (N a)) T tid) data"

definition omp_gen :: "stream \<Rightarrow> omp_rt \<Rightarrow> Args \<Rightarrow> nat \<Rightarrow> nat \<Rightarrow> fault + int list" where
  "omp_gen draw rt a T r =
     for_each (omp_gen_worker draw rt a r T) [0..<T] (replicate (N a) 0)"

text \<open>
  private: each thread counts its iterations into its own \<open>hist_local\<close> and adds it
  to \<open>hist_global\<close> inside \<open>#pragma omp critical\<close>.
\<close>

definition omp_private_worker ::
  "int list \<Rightarrow> int \<Rightarrow> nat list \<Rightarrow> nat \<Rightarrow> nat list \<Rightarrow> fault + nat list" where
  "omp_private_worker data mn js bins hist_global =
     (case count_range data mn js (replicate bins 0) of
        Inl e \<Rightarrow> Inl e
      | Inr hist_local \<Rightarrow> add_row hist_local [0..<bins] hist_global)"

definition omp_hist ::
  "omp_rt \<Rightarrow> Args \<Rightarrow> int list \<Rightarrow> nat \<Rightarrow> nat \<Rightarrow> (fault + nat list) option" where
  "omp_hist rt a data T bins =
     (if variant a = ''private''
      then Some (for_each (\<lambda>tid. omp_private_worker data (minv a) (rt_static rt (ll_trip (N a)) T tid) bins)
                   [0..<T] (replicate bins 0))
      else if variant a = ''atomic''
      then Some (for_each (\<lambda>tid. count_range data (minv a) (rt_static rt (ll_trip (N a)) T tid))
                   [0..<T] (replicate bins 0))
      else if variant a = ''mutex''
      then Some (case for_each (\<lambda>tid. count_locked data (minv a) (rt_static rt (ll_trip (N a)) T tid))
                        [0..<T] (replicate bins 0, replicate bins False) of
                   Inl e \<Rightarrow> Inl e
                 | Inr s \<Rightarrow> Inr (fst s))
      else None)"

definition omp_rep :: "stream \<Rightarrow> omp_rt \<Rightarrow> Args \<Rightarrow> int \<Rightarrow> nat \<Rightarrow> event list \<times> ctl" where
  "omp_rep draw rt a bins r =
     (let T = omp_team rt a in
      case omp_gen draw rt a T r of
        Inl e \<Rightarrow> ([], Stop (Crashed e))
      | Inr data \<Rightarrow>
          (case omp_hist rt a data T (nat bins) of
             None \<Rightarrow> ([Generated data, Stderr (unsupported (variant a))], Stop (Exit 2))
           | Some (Inl e) \<Rightarrow> ([Generated data], Stop (Crashed e))
           | Some (Inr h) \<Rightarrow>
               (case finish_rep ''openmp'' (variant a) (int T) a bins (accumulate h) of
                  (ev, c) \<Rightarrow> (Generated data # Counted h # ev, c))))"

definition omp_main :: "stream \<Rightarrow> omp_rt \<Rightarrow> Args \<Rightarrow> event list \<times> outcome" where
  "omp_main draw rt a0 =
     (let a = normalise a0 in
      case bins_of a of
        Inl e \<Rightarrow> ([], Crashed e)
      | Inr bins \<Rightarrow> rep_loop (omp_rep draw rt a bins) [0..<nat (rep a)])"

section \<open>Interleaved executions\<close>

subsection \<open>Counting into the shared array\<close>

text \<open>
  A state of the atomic variant: what each worker has left to count, and the shared
  array. A step is one \<open>fetch_add\<close> (one \<open>omp atomic update\<close>) of any worker that is
  not done. A worker whose next access is out of range has no step.
\<close>

type_synonym astate = "nat list list \<times> nat list"

inductive atomic_step :: "int list \<Rightarrow> int \<Rightarrow> astate \<Rightarrow> astate \<Rightarrow> bool"
  for data :: "int list" and mn :: int where
  incr: "t < length ws \<Longrightarrow> ws ! t = i # js \<Longrightarrow> bump data mn i h = Inr h' \<Longrightarrow>
         atomic_step data mn (ws, h) (ws[t := js], h')"

definition atomic_done :: "astate \<Rightarrow> bool" where
  "atomic_done s = (concat (fst s) = [])"

text \<open>
  A state of the mutex variant: for each worker what it has left and where it stands in
  \<open>lock; ++hist[idx]; unlock\<close>, the shared array and the flags of the mutexes. The
  increment is a load and a store. A worker waiting for a held mutex has no step.
\<close>

datatype phase = Idle | Locked | Loaded nat | Stored

type_synonym mstate = "(nat list \<times> phase) list \<times> nat list \<times> bool list"

inductive mutex_step :: "int list \<Rightarrow> int \<Rightarrow> mstate \<Rightarrow> mstate \<Rightarrow> bool"
  for data :: "int list" and mn :: int where
  acquire: "t < length ws \<Longrightarrow> ws ! t = (i # js, Idle) \<Longrightarrow>
            bin_index data mn (length m) i = Some b \<Longrightarrow> \<not> m ! b \<Longrightarrow>
            mutex_step data mn (ws, h, m) (ws[t := (i # js, Locked)], h, m[b := True])"
| load: "t < length ws \<Longrightarrow> ws ! t = (i # js, Locked) \<Longrightarrow>
         bin_index data mn (length h) i = Some b \<Longrightarrow>
         mutex_step data mn (ws, h, m) (ws[t := (i # js, Loaded (h ! b))], h, m)"
| store: "t < length ws \<Longrightarrow> ws ! t = (i # js, Loaded v) \<Longrightarrow>
          bin_index data mn (length h) i = Some b \<Longrightarrow>
          mutex_step data mn (ws, h, m) (ws[t := (i # js, Stored)], h[b := v + 1], m)"
| release: "t < length ws \<Longrightarrow> ws ! t = (i # js, Stored) \<Longrightarrow>
            bin_index data mn (length m) i = Some b \<Longrightarrow>
            mutex_step data mn (ws, h, m) (ws[t := (js, Idle)], h, m[b := False])"

definition mutex_init :: "nat list list \<Rightarrow> nat \<Rightarrow> mstate" where
  "mutex_init ws bins = (map (\<lambda>js. (js, Idle)) ws, replicate bins 0, replicate bins False)"

definition mutex_done :: "mstate \<Rightarrow> bool" where
  "mutex_done s = (concat (map fst (fst s)) = [])"

subsection \<open>Generation\<close>

text \<open>
  A state of a generation phase: the stores \<open>data[i] = v\<close> each worker has still to do, in
  its order, and the dataset. A step is the next store of any worker that is not done.
  Worker \<open>t\<close> stores the draws \<open>k, k + 1, ...\<close> of its own generator at the indices of
  its range, in this order.
\<close>

type_synonym gstate = "(nat \<times> int) list list \<times> int list"

inductive write_step :: "gstate \<Rightarrow> gstate \<Rightarrow> bool" where
  store: "t < length ws \<Longrightarrow> ws ! t = (i, v) # rest \<Longrightarrow> i < length data \<Longrightarrow>
          write_step (ws, data) (ws[t := rest], data[i := v])"

definition writes_of :: "(nat \<Rightarrow> int) \<Rightarrow> nat \<Rightarrow> nat list \<Rightarrow> (nat \<times> int) list" where
  "writes_of g k js = zip js (map g [k..<k + length js])"

section \<open>What the histogram is\<close>

text \<open>Bin \<open>b\<close> holds the number of values of the dataset equal to \<open>min + b\<close>.\<close>

definition histogram_of :: "int list \<Rightarrow> int \<Rightarrow> nat \<Rightarrow> nat list" where
  "histogram_of data mn bins = map (\<lambda>b. count_list data (mn + int b)) [0..<bins]"

section \<open>Auxiliary notions for the proofs\<close>

text \<open>
  \<open>tally data mn js h\<close> is the array \<open>h\<close> after the items \<open>js\<close> have been counted into
  it, bin by bin; \<open>in_bins\<close> says that every item has a bin.
\<close>

definition tally :: "int list \<Rightarrow> int \<Rightarrow> nat list \<Rightarrow> nat list \<Rightarrow> nat list" where
  "tally data mn js h =
     map (\<lambda>b. h ! b + length (filter (\<lambda>j. bin_index data mn (length h) j = Some b) js)) [0..<length h]"

definition in_bins :: "int list \<Rightarrow> int \<Rightarrow> nat \<Rightarrow> nat list \<Rightarrow> bool" where
  "in_bins data mn bins js = (\<forall>j\<in>set js. bin_index data mn bins j \<noteq> None)"

definition threads_row :: "Args \<Rightarrow> int \<Rightarrow> int \<Rightarrow> csv_row" where
  "threads_row a T bins =
     \<lparr>c_backend = ''threads'', c_variant = variant a, c_threads = T, c_N = N a, c_bins = bins,
      c_min = minv a, c_max = maxv a, c_seed = seed a, c_sum_hist = N a\<rparr>"

definition work_left :: "astate \<Rightarrow> nat" where
  "work_left s = length (concat (fst s))"

definition holds :: "int list \<Rightarrow> int \<Rightarrow> nat \<Rightarrow> nat list \<times> phase \<Rightarrow> nat option" where
  "holds data mn bins w =
     (case w of
        ([], ph) \<Rightarrow> None
      | (i # js, ph) \<Rightarrow> if ph = Idle then None else bin_index data mn bins i)"

definition owed :: "nat list \<times> phase \<Rightarrow> nat list" where
  "owed w = (if snd w = Stored then tl (fst w) else fst w)"

definition mutex_inv :: "int list \<Rightarrow> int \<Rightarrow> mstate \<Rightarrow> bool" where
  "mutex_inv data mn s =
     (case s of (ws, h, m) \<Rightarrow>
        length m = length h \<and>
        (\<forall>t<length ws. snd (ws ! t) \<noteq> Idle \<longrightarrow>
           (\<exists>b. holds data mn (length h) (ws ! t) = Some b \<and> m ! b)) \<and>
        (\<forall>t<length ws. \<forall>u<length ws. \<forall>b. t \<noteq> u \<longrightarrow> holds data mn (length h) (ws ! t) = Some b \<longrightarrow>
           holds data mn (length h) (ws ! u) \<noteq> Some b) \<and>
        (\<forall>t<length ws. \<forall>v b. snd (ws ! t) = Loaded v \<longrightarrow>
           holds data mn (length h) (ws ! t) = Some b \<longrightarrow> v = h ! b) \<and>
        (\<forall>b<length m. m ! b \<longrightarrow> (\<exists>t<length ws. holds data mn (length h) (ws ! t) = Some b)))"

definition weight :: "nat list \<times> phase \<Rightarrow> nat" where
  "weight w = 4 * length (fst w) - (case snd w of Idle \<Rightarrow> 0 | Locked \<Rightarrow> 1 | Loaded v \<Rightarrow> 2 | Stored \<Rightarrow> 3)"

definition mutex_left :: "mstate \<Rightarrow> nat" where
  "mutex_left s = sum_list (map weight (fst s))"

definition mutex_goal :: "int list \<Rightarrow> int \<Rightarrow> mstate \<Rightarrow> nat list" where
  "mutex_goal data mn s = tally data mn (concat (map owed (fst s))) (fst (snd s))"

text \<open>The datasets, the arrays and the lines of a run, in order.\<close>

fun datasets :: "event list \<Rightarrow> int list list" where
  "datasets [] = []"
| "datasets (Generated d # evs) = d # datasets evs"
| "datasets (e # evs) = datasets evs"

fun histograms :: "event list \<Rightarrow> nat list list" where
  "histograms [] = []"
| "histograms (Counted h # evs) = h # histograms evs"
| "histograms (e # evs) = histograms evs"

fun rows :: "event list \<Rightarrow> csv_row list" where
  "rows [] = []"
| "rows (Stdout l # evs) = l # rows evs"
| "rows (e # evs) = rows evs"

text \<open>
  Instances of the two parameters, for concrete runs. \<open>toy_draw\<close> is a stream within
  its bounds. \<open>gomp\<close> is a runtime that grants the team asked for (\<open>ncpu\<close> threads when
  none was asked for) and splits a static loop the way GCC's libgomp does: with
  \<open>q = n div T\<close> and \<open>m = n mod T\<close>, the first \<open>m\<close> threads get \<open>q + 1\<close> consecutive
  iterations and the others \<open>q\<close>.
\<close>

definition toy_draw :: stream where
  "toy_draw s lo hi k = lo + int ((s + 3 * k) mod nat (hi - lo + 1))"

definition gomp_static :: "nat \<Rightarrow> nat \<Rightarrow> nat \<Rightarrow> nat list" where
  "gomp_static n T tid =
     (let q = n div T; m = n mod T
      in if tid < m then [tid * (q + 1) ..< (tid + 1) * (q + 1)]
         else [m + tid * q ..< m + (tid + 1) * q])"

definition gomp :: "nat \<Rightarrow> omp_rt" where
  "gomp ncpu = \<lparr>rt_team = (\<lambda>k. case k of None \<Rightarrow> ncpu | Some T \<Rightarrow> T), rt_static = gomp_static\<rparr>"

definition omp_row :: "Args \<Rightarrow> int \<Rightarrow> int \<Rightarrow> csv_row" where
  "omp_row a T bins =
     \<lparr>c_backend = ''openmp'', c_variant = variant a, c_threads = T, c_N = N a, c_bins = bins,
      c_min = minv a, c_max = maxv a, c_seed = seed a, c_sum_hist = N a\<rparr>"

definition seq_row :: "Args \<Rightarrow> int \<Rightarrow> csv_row" where
  "seq_row a bins =
     \<lparr>c_backend = ''seq'', c_variant = ''baseline'', c_threads = 1, c_N = N a, c_bins = bins,
      c_min = minv a, c_max = maxv a, c_seed = seed a, c_sum_hist = N a\<rparr>"

definition team :: "Args \<Rightarrow> int" where
  "team a = (if threads a \<le> 0 then 4 else threads a)"

definition threads_data :: "stream \<Rightarrow> Args \<Rightarrow> nat \<Rightarrow> int list" where
  "threads_data draw a r =
     projr (threads_gen draw (normalise a) (nat (team a))
              ((N a + nat (team a) - 1) div nat (team a)) r)"

definition omp_data :: "stream \<Rightarrow> omp_rt \<Rightarrow> Args \<Rightarrow> nat \<Rightarrow> int list" where
  "omp_data draw rt a r = projr (omp_gen draw rt (normalise a) (omp_team rt a) r)"

definition seq_data :: "stream \<Rightarrow> Args \<Rightarrow> nat \<Rightarrow> int list" where
  "seq_data draw a r = projr (seq_gen draw (normalise a) r)"

definition trace :: "(nat \<Rightarrow> int list) \<Rightarrow> (nat \<Rightarrow> nat list) \<Rightarrow> csv_row \<Rightarrow> nat \<Rightarrow> event list" where
  "trace D H l k = concat (map (\<lambda>r. [Generated (D r), Counted (H r), Stdout l]) [0..<k])"

text \<open>The dataset after a list of stores.\<close>

definition apply_writes :: "(nat \<times> int) list \<Rightarrow> int list \<Rightarrow> int list" where
  "apply_writes ws data = fold (\<lambda>w d. d[fst w := snd w]) ws data"

section \<open>The partition\<close>

lemma u64_id: "x < 18446744073709551616 \<Longrightarrow> u64 x = x"
  by (simp add: u64_def)

lemma upt_glue: "i \<le> j \<Longrightarrow> j \<le> k \<Longrightarrow> [i..<j] @ [j..<k] = [i..<k]"
  using upt_add_eq_append [of i j "k - j"] by simp

lemma ceil_mult_ge: "0 < (T::nat) \<Longrightarrow> n \<le> T * ((n + T - 1) div T)"
proof -
  assume T: "0 < T"
  have "n + T - 1 = T * ((n + T - 1) div T) + (n + T - 1) mod T" by simp
  moreover have "(n + T - 1) mod T < T" using T by simp
  ultimately show ?thesis by linarith
qed

lemma ceil_mult_le: "0 < (T::nat) \<Longrightarrow> T * ((n + T - 1) div T) \<le> n + T - 1"
  by simp

lemma span_upto:
  assumes "\<forall>t<k. (t + 1) * c < 18446744073709551616"
  shows "concat (map (span n c) [0..<k]) = [0..<min n (k * c)]"
  using assms
proof (induction k)
  case 0
  then show ?case by simp
next
  case (Suc k)
  have nw: "(k + 1) * c < 18446744073709551616" using Suc.prems by simp
  have nw0: "k * c < 18446744073709551616" using nw by (simp add: algebra_simps)
  have sp: "span n c k = [k * c ..< min n ((k + 1) * c)]"
    using nw nw0 by (simp add: span_def start_of_def end_of_def u64_id del: mult_Suc)
  have IH: "concat (map (span n c) [0..<k]) = [0..<min n (k * c)]"
    using Suc by simp
  show ?case
  proof (cases "k * c \<le> n")
    case True
    then have "[0..<k * c] @ [k * c ..< min n ((k + 1) * c)] = [0..<min n ((k + 1) * c)]"
      by (intro upt_glue) simp_all
    then show ?thesis using IH sp True by (simp add: min_absorb2)
  next
    case False
    then show ?thesis using IH sp by (simp add: min_def)
  qed
qed

section \<open>Counting into one array\<close>

lemma length_tally [simp]: "length (tally data mn js h) = length h"
  by (simp add: tally_def)

lemma tally_Nil [simp]: "tally data mn [] h = h"
  by (simp add: tally_def map_nth)

lemma bin_index_less: "bin_index data mn bins i = Some b \<Longrightarrow> b < bins"
  by (auto simp: bin_index_def split: if_splits)

lemma bump_length: "bump data mn i h = Inr h' \<Longrightarrow> length h' = length h"
  by (auto simp: bump_def split: option.splits)

lemma bump_tally:
  assumes "bump data mn i h = Inr h'"
  shows "tally data mn js h' = tally data mn (i # js) h"
proof -
  from assms obtain b where b: "bin_index data mn (length h) i = Some b"
    and h': "h' = h[b := h ! b + 1]"
    by (auto simp: bump_def split: option.splits)
  have bl: "b < length h" using b by (rule bin_index_less)
  show ?thesis
    unfolding tally_def h'
    by (rule nth_equalityI) (use b bl in \<open>auto simp: nth_list_update\<close>)
qed

lemma count_range_tally:
  "in_bins data mn (length h) js \<Longrightarrow> count_range data mn js h = Inr (tally data mn js h)"
proof (induction js arbitrary: h)
  case Nil
  then show ?case by simp
next
  case (Cons i js)
  from Cons.prems obtain b where b: "bin_index data mn (length h) i = Some b"
    by (auto simp: in_bins_def)
  then have bu: "bump data mn i h = Inr (h[b := h ! b + 1])"
    by (simp add: bump_def)
  have "in_bins data mn (length (h[b := h ! b + 1])) js"
    using Cons.prems by (simp add: in_bins_def)
  from Cons.IH [OF this] bu bump_tally [OF bu] show ?case by simp
qed

lemma count_range_in_bins:
  "count_range data mn js h = Inr h' \<Longrightarrow> in_bins data mn (length h) js"
proof (induction js arbitrary: h)
  case Nil
  then show ?case by (simp add: in_bins_def)
next
  case (Cons i js)
  then obtain h1 where h1: "bump data mn i h = Inr h1" and r: "count_range data mn js h1 = Inr h'"
    by (auto split: sum.splits)
  from Cons.IH [OF r] bump_length [OF h1] h1 show ?case
    by (auto simp: in_bins_def bump_def split: option.splits)
qed

lemma tally_mset:
  "mset js = mset js' \<Longrightarrow> tally data mn js h = tally data mn js' h"
proof -
  assume m: "mset js = mset js'"
  have "\<And>P. length (filter P js) = length (filter P js')"
  proof -
    fix P :: "nat \<Rightarrow> bool"
    have "size (mset (filter P js)) = size (mset (filter P js'))"
      unfolding mset_filter using m by simp
    then show "length (filter P js) = length (filter P js')"
      unfolding size_mset .
  qed
  then show ?thesis by (simp add: tally_def)
qed

lemma in_bins_mset: "mset js = mset js' \<Longrightarrow> in_bins data mn bins js = in_bins data mn bins js'"
  by (auto simp: in_bins_def dest: mset_eq_setD)

lemma count_range_sum:
  "count_range data mn js h = Inr h' \<Longrightarrow> sum_list h' = sum_list h + length js"
proof (induction js arbitrary: h)
  case Nil
  then show ?case by simp
next
  case (Cons i js)
  then obtain h1 where h1: "bump data mn i h = Inr h1" and r: "count_range data mn js h1 = Inr h'"
    by (auto split: sum.splits)
  from h1 obtain b where b: "b < length h" and e: "h1 = h[b := h ! b + 1]"
    by (auto simp: bump_def split: option.splits dest: bin_index_less)
  have "sum_list h1 = sum_list h + 1"
    using b unfolding e by (simp add: sum_list_update)
  with Cons.IH [OF r] show ?case by simp
qed

lemma count_range_append:
  "count_range data mn (xs @ ys) h =
     (case count_range data mn xs h of Inl e \<Rightarrow> Inl e | Inr h' \<Rightarrow> count_range data mn ys h')"
  by (induction xs arbitrary: h) (auto split: sum.splits)

lemma for_each_count:
  "for_each (\<lambda>t. count_range data mn (f t)) ts h = count_range data mn (concat (map f ts)) h"
  by (induction ts arbitrary: h) (auto simp: count_range_append split: sum.splits)

lemma count_by_index:
  "length (filter (\<lambda>j. xs ! j = v) [0..<length xs]) = count_list xs v"
proof (induction xs rule: rev_induct)
  case Nil
  then show ?case by simp
next
  case (snoc x xs)
  have "filter (\<lambda>j. (xs @ [x]) ! j = v) [0..<length xs] = filter (\<lambda>j. xs ! j = v) [0..<length xs]"
    by (rule filter_cong) (auto simp: nth_append)
  with snoc show ?case by simp
qed

lemma tally_all_nth:
  assumes "length data = n" "\<forall>x\<in>set data. mn \<le> x \<and> x < mn + int bins"
  shows "tally data mn [0..<n] (replicate bins 0) = histogram_of data mn bins"
proof -
  have "length (filter (\<lambda>j. bin_index data mn bins j = Some b) [0..<n]) = count_list data (mn + int b)"
    if "b < bins" for b
  proof -
    have eq: "\<And>j. j < n \<Longrightarrow> (bin_index data mn bins j = Some b) = (data ! j = mn + int b)"
      using assms that by (auto simp: bin_index_def)
    have "filter (\<lambda>j. bin_index data mn bins j = Some b) [0..<n] = filter (\<lambda>j. data ! j = mn + int b) [0..<n]"
      by (rule filter_cong) (use eq in auto)
    moreover have "length (filter (\<lambda>j. data ! j = mn + int b) [0..<length data]) = count_list data (mn + int b)"
      by (rule count_by_index)
    ultimately show ?thesis using assms(1) by simp
  qed
  then show ?thesis
    by (simp add: tally_def histogram_of_def)
qed

section \<open>Filling and merging\<close>

lemma fill_inv:
  assumes "\<forall>k. P (g k)" "\<forall>j\<in>set js. j < length data"
  shows "\<exists>d'. fill g k js data = Inr d' \<and> length d' = length data \<and>
           (\<forall>i<length data. P (data ! i) \<or> i \<in> set js \<longrightarrow> P (d' ! i))"
  using assms(2)
proof (induction js arbitrary: k data)
  case Nil
  then show ?case by simp
next
  case (Cons j js)
  have j: "j < length data" using Cons.prems by simp
  have "\<forall>i\<in>set js. i < length (data[j := g k])" using Cons.prems by simp
  from Cons.IH [OF this, of "Suc k"] obtain d' where
    d: "fill g (Suc k) js (data[j := g k]) = Inr d'" "length d' = length data"
       "\<forall>i<length data. P ((data[j := g k]) ! i) \<or> i \<in> set js \<longrightarrow> P (d' ! i)"
    by auto
  have "\<forall>i<length data. P (data ! i) \<or> i \<in> set (j # js) \<longrightarrow> P (d' ! i)"
  proof (intro allI impI)
    fix i assume i: "i < length data" and h: "P (data ! i) \<or> i \<in> set (j # js)"
    have "P ((data[j := g k]) ! i) \<or> i \<in> set js"
      using h i assms(1) by (cases "i = j") auto
    then show "P (d' ! i)" using d(3) i by blast
  qed
  then show ?case using d j by simp
qed

lemma for_each_fill:
  assumes "\<forall>t\<in>set ts. \<forall>k. P (g t k)" "\<forall>t\<in>set ts. \<forall>j\<in>set (f t). j < length data"
  shows "\<exists>d'. for_each (\<lambda>t. fill (g t) 0 (f t)) ts data = Inr d' \<and> length d' = length data \<and>
           (\<forall>i<length data. P (data ! i) \<or> i \<in> set (concat (map f ts)) \<longrightarrow> P (d' ! i))"
  using assms
proof (induction ts arbitrary: data)
  case Nil
  then show ?case by simp
next
  case (Cons t ts)
  have "\<forall>k. P (g t k)" "\<forall>j\<in>set (f t). j < length data" using Cons.prems by auto
  from fill_inv [of P "g t" "f t" data 0, OF this] obtain d1 where
    d1: "fill (g t) 0 (f t) data = Inr d1" "length d1 = length data"
        "\<forall>i<length data. P (data ! i) \<or> i \<in> set (f t) \<longrightarrow> P (d1 ! i)"
    by auto
  have "\<forall>t\<in>set ts. \<forall>k. P (g t k)" "\<forall>t\<in>set ts. \<forall>j\<in>set (f t). j < length d1"
    using Cons.prems d1(2) by auto
  from Cons.IH [OF this] obtain d' where
    d': "for_each (\<lambda>t. fill (g t) 0 (f t)) ts d1 = Inr d'" "length d' = length d1"
        "\<forall>i<length d1. P (d1 ! i) \<or> i \<in> set (concat (map f ts)) \<longrightarrow> P (d' ! i)"
    by auto
  have "\<forall>i<length data. P (data ! i) \<or> i \<in> set (concat (map f (t # ts))) \<longrightarrow> P (d' ! i)"
    using d1 d' by auto
  then show ?case using d1 d' by simp
qed

lemma add_row_upto:
  assumes "k \<le> length h" "length row = length h"
  shows "add_row row [0..<k] h = Inr (map (\<lambda>b. if b < k then h ! b + row ! b else h ! b) [0..<length h])"
proof -
  have gen: "add_row row [i..<k] h0 =
               Inr (map (\<lambda>b. if i \<le> b \<and> b < k then h0 ! b + row ! b else h0 ! b) [0..<length h0])"
    if "k \<le> length h0" "length row = length h0" for i h0
    using that
  proof (induction "k - i" arbitrary: i h0)
    case 0
    then have e: "[i..<k] = []" by simp
    have m: "map (\<lambda>b. if i \<le> b \<and> b < k then h0 ! b + row ! b else h0 ! b) [0..<length h0] = h0"
      using 0 by (intro nth_equalityI) auto
    show ?case by (simp only: e m add_row.simps)
  next
    case (Suc d)
    then have ik: "i < k" by simp
    then have up: "[i..<k] = i # [Suc i..<k]" by (simp add: upt_conv_Cons)
    let ?h1 = "h0[i := h0 ! i + row ! i]"
    have "d = k - Suc i" using Suc by simp
    from Suc.hyps(1) [OF this, of ?h1] Suc.prems
    have "add_row row [Suc i..<k] ?h1 =
            Inr (map (\<lambda>b. if Suc i \<le> b \<and> b < k then ?h1 ! b + row ! b else ?h1 ! b) [0..<length ?h1])"
      by simp
    moreover have "map (\<lambda>b. if Suc i \<le> b \<and> b < k then ?h1 ! b + row ! b else ?h1 ! b) [0..<length ?h1]
                 = map (\<lambda>b. if i \<le> b \<and> b < k then h0 ! b + row ! b else h0 ! b) [0..<length h0]"
      using ik Suc.prems by (intro nth_equalityI) (auto simp: nth_list_update)
    ultimately show ?case using up ik Suc.prems by simp
  qed
  from gen [of h 0] assms show ?thesis by simp
qed

lemma tally_plus:
  "map (\<lambda>b. h ! b + tally data mn js (replicate (length h) 0) ! b) [0..<length h] = tally data mn js h"
  by (rule nth_equalityI) (auto simp: tally_def)

lemma add_row_tally:
  assumes "length h = bins"
  shows "add_row (tally data mn js (replicate bins 0)) [0..<bins] h = Inr (tally data mn js h)"
proof -
  have "add_row (tally data mn js (replicate bins 0)) [0..<bins] h =
          Inr (map (\<lambda>b. if b < bins then h ! b + tally data mn js (replicate bins 0) ! b else h ! b) [0..<length h])"
    using assms by (intro add_row_upto) simp_all
  also have "map (\<lambda>b. if b < bins then h ! b + tally data mn js (replicate bins 0) ! b else h ! b) [0..<length h]
             = map (\<lambda>b. h ! b + tally data mn js (replicate (length h) 0) ! b) [0..<length h]"
    using assms by (intro nth_equalityI) auto
  finally show ?thesis by (simp add: tally_plus)
qed

lemma tally_append:
  "tally data mn (xs @ ys) h = tally data mn ys (tally data mn xs h)"
  by (rule nth_equalityI) (auto simp: tally_def)

lemma in_bins_append:
  "in_bins data mn bins (xs @ ys) = (in_bins data mn bins xs \<and> in_bins data mn bins ys)"
  by (auto simp: in_bins_def)

lemma in_bins_concat:
  "in_bins data mn bins (concat (map f ts)) = (\<forall>t\<in>set ts. in_bins data mn bins (f t))"
  by (induction ts) (auto simp: in_bins_append in_bins_def)

section \<open>The variants on work lists\<close>

lemma for_each_tally:
  assumes "\<And>t h. t \<in> set ts \<Longrightarrow> length h = bins \<Longrightarrow> w t h = Inr (tally data mn (f t) h)"
    and "length h = bins"
  shows "for_each w ts h = Inr (tally data mn (concat (map f ts)) h)"
  using assms
proof (induction ts arbitrary: h)
  case Nil
  then show ?case by simp
next
  case (Cons t ts)
  have w: "w t h = Inr (tally data mn (f t) h)" using Cons.prems by simp
  have "for_each w ts (tally data mn (f t) h) = Inr (tally data mn (concat (map f ts)) (tally data mn (f t) h))"
    using Cons.prems by (intro Cons.IH) simp_all
  then show ?case using w by (simp add: tally_append)
qed

lemma private_workers:
  assumes "distinct ts"
    and "\<forall>t\<in>set ts. t < length locals \<and> in_bins data mn (length (locals ! t)) (span n chunk t)"
  shows "for_each (private_worker data mn n chunk) ts locals =
           Inr (map (\<lambda>t. if t \<in> set ts then tally data mn (span n chunk t) (locals ! t) else locals ! t)
                  [0..<length locals])"
  using assms
proof (induction ts arbitrary: locals)
  case Nil
  then show ?case by (simp add: map_nth)
next
  case (Cons t ts)
  let ?l1 = "locals[t := tally data mn (span n chunk t) (locals ! t)]"
  have t: "t < length locals" "in_bins data mn (length (locals ! t)) (span n chunk t)" "t \<notin> set ts"
    using Cons.prems by auto
  have w: "private_worker data mn n chunk t locals = Inr ?l1"
    using t by (simp add: private_worker_def count_range_tally)
  have "\<forall>u\<in>set ts. u < length ?l1 \<and> in_bins data mn (length (?l1 ! u)) (span n chunk u)"
    using Cons.prems t by (auto simp: nth_list_update)
  moreover have "distinct ts" using Cons.prems by simp
  ultimately have "for_each (private_worker data mn n chunk) ts ?l1 =
           Inr (map (\<lambda>u. if u \<in> set ts then tally data mn (span n chunk u) (?l1 ! u) else ?l1 ! u)
                  [0..<length ?l1])"
    by (intro Cons.IH)
  moreover have "map (\<lambda>u. if u \<in> set ts then tally data mn (span n chunk u) (?l1 ! u) else ?l1 ! u)
                  [0..<length ?l1]
     = map (\<lambda>u. if u \<in> set (t # ts) then tally data mn (span n chunk u) (locals ! u) else locals ! u)
                  [0..<length locals]"
    using t by (intro nth_equalityI) (auto simp: nth_list_update)
  ultimately show ?case using w by simp
qed

lemma locked_bump_free:
  assumes "\<forall>b<length m. \<not> m ! b" "length m = length h" "bin_index data mn (length h) i = Some b"
  shows "locked_bump data mn i (h, m) = Inr (h[b := h ! b + 1], m)"
proof -
  have b: "b < length m" using assms by (auto dest: bin_index_less)
  then have "m[b := False] = m" using assms(1) by (intro nth_equalityI) (auto simp: nth_list_update)
  then show ?thesis using assms b by (simp add: locked_bump_def bump_def)
qed

lemma count_locked_free:
  assumes "\<forall>b<length m. \<not> m ! b" "length m = length h" "in_bins data mn (length h) js"
  shows "count_locked data mn js (h, m) = Inr (tally data mn js h, m)"
  using assms(2,3)
proof (induction js arbitrary: h)
  case Nil
  then show ?case by simp
next
  case (Cons i js)
  from Cons.prems obtain b where b: "bin_index data mn (length h) i = Some b"
    by (auto simp: in_bins_def)
  let ?h1 = "h[b := h ! b + 1]"
  have bu: "bump data mn i h = Inr ?h1" using b by (simp add: bump_def)
  have lb: "locked_bump data mn i (h, m) = Inr (?h1, m)"
    using assms(1) Cons.prems(1) b by (rule locked_bump_free)
  have "count_locked data mn js (?h1, m) = Inr (tally data mn js ?h1, m)"
    using Cons.prems by (intro Cons.IH) (simp_all add: in_bins_def)
  then show ?case using lb bump_tally [OF bu] by simp
qed

lemma for_each_locked:
  assumes "\<forall>b<length m. \<not> m ! b" "length m = length h"
    and "\<forall>t\<in>set ts. in_bins data mn (length h) (f t)"
  shows "for_each (\<lambda>t. count_locked data mn (f t)) ts (h, m) =
           Inr (tally data mn (concat (map f ts)) h, m)"
  using assms(2,3)
proof (induction ts arbitrary: h)
  case Nil
  then show ?case by simp
next
  case (Cons t ts)
  have w: "count_locked data mn (f t) (h, m) = Inr (tally data mn (f t) h, m)"
    using assms(1) Cons.prems by (intro count_locked_free) simp_all
  have "for_each (\<lambda>t. count_locked data mn (f t)) ts (tally data mn (f t) h, m) =
           Inr (tally data mn (concat (map f ts)) (tally data mn (f t) h), m)"
    using Cons.prems by (intro Cons.IH) simp_all
  then show ?case using w by (simp add: tally_append)
qed

text \<open>The three variants of the thread backend, on work lists that all have bins.\<close>

lemma hist_atomic_tally:
  assumes "\<forall>t<T. in_bins data mn bins (span n chunk t)"
  shows "hist_atomic data mn n chunk T bins =
           Inr (tally data mn (concat (map (span n chunk) [0..<T])) (replicate bins 0))"
  unfolding hist_atomic_def
  by (rule for_each_tally [where bins = bins]) (use assms in \<open>simp_all add: count_range_tally\<close>)

lemma hist_mutex_tally:
  assumes "\<forall>t<T. in_bins data mn bins (span n chunk t)"
  shows "hist_mutex data mn n chunk T bins =
           Inr (tally data mn (concat (map (span n chunk) [0..<T])) (replicate bins 0))"
proof -
  have "for_each (\<lambda>t. count_locked data mn (span n chunk t)) [0..<T] (replicate bins 0, replicate bins False)
        = Inr (tally data mn (concat (map (span n chunk) [0..<T])) (replicate bins 0), replicate bins False)"
    by (rule for_each_locked) (use assms in simp_all)
  then show ?thesis by (simp add: hist_mutex_def)
qed

lemma hist_private_tally:
  assumes "\<forall>t<T. in_bins data mn bins (span n chunk t)"
  shows "hist_private data mn n chunk T bins =
           Inr (tally data mn (concat (map (span n chunk) [0..<T])) (replicate bins 0))"
proof -
  let ?locals = "map (\<lambda>t. tally data mn (span n chunk t) (replicate bins 0)) [0..<T]"
  have "for_each (private_worker data mn n chunk) [0..<T] (replicate T (replicate bins 0)) =
           Inr (map (\<lambda>t. if t \<in> set [0..<T] then tally data mn (span n chunk t) (replicate T (replicate bins 0) ! t)
                          else replicate T (replicate bins 0) ! t)
                  [0..<length (replicate T (replicate bins 0))])"
    using private_workers [where ts = "[0..<T]" and locals = "replicate T (replicate bins 0)"
        and data = data and mn = mn and n = n and chunk = chunk] assms
    by simp
  also have "map (\<lambda>t. if t \<in> set [0..<T] then tally data mn (span n chunk t) (replicate T (replicate bins 0) ! t)
                          else replicate T (replicate bins 0) ! t)
                  [0..<length (replicate T (replicate bins 0))] = ?locals"
    by (intro nth_equalityI) auto
  finally have l: "for_each (private_worker data mn n chunk) [0..<T] (replicate T (replicate bins 0)) = Inr ?locals" .
  have "for_each (merge_local ?locals bins) [0..<T] (replicate bins 0) =
          Inr (tally data mn (concat (map (span n chunk) [0..<T])) (replicate bins 0))"
    by (rule for_each_tally [where bins = bins]) (simp_all add: merge_local_def add_row_tally)
  then show ?thesis using l by (simp add: hist_private_def)
qed

section \<open>Arithmetic of one run\<close>

lemma normalise_ordered: "minv (normalise a) \<le> maxv (normalise a)"
  by (simp add: normalise_def)

lemma normalise_other [simp]:
  "N (normalise a) = N a" "seed (normalise a) = seed a" "rep (normalise a) = rep a"
  "variant (normalise a) = variant a" "threads (normalise a) = threads a"
  by (simp_all add: normalise_def)

lemma bins_of_Inr:
  "bins_of a = Inr bins \<Longrightarrow> bins = maxv a - minv a + 1 \<and> bins \<le> INT_MAX"
  by (auto simp: bins_of_def split: if_splits)

lemma span_below: "j \<in> set (span n chunk t) \<Longrightarrow> j < n"
  by (simp add: span_def end_of_def)

lemma in_bins_data:
  assumes "\<forall>x\<in>set data. mn \<le> x \<and> x < mn + int bins" "\<forall>j\<in>set js. j < length data"
  shows "in_bins data mn bins js"
proof -
  have "bin_index data mn bins j \<noteq> None" if "j \<in> set js" for j
  proof -
    have "j < length data" using that assms(2) by simp
    moreover from this have "data ! j \<in> set data" by simp
    then have "mn \<le> data ! j \<and> data ! j < mn + int bins" using assms(1) by blast
    ultimately show ?thesis by (simp add: bin_index_def) linarith
  qed
  then show ?thesis by (simp add: in_bins_def)
qed

lemma chunk_of_ok:
  assumes "1 \<le> T" "T \<le> INT_MAX" "n < 9223372036854775808"
  shows "chunk_of n (u64_of_int T) = Inr ((n + nat T - 1) div nat T)"
proof -
  have "u64_of_int T = nat T" using assms by (simp add: u64_of_int_def INT_MAX_def)
  moreover have "u64 (n + nat T - 1) = n + nat T - 1"
    using assms by (intro u64_id) (simp add: INT_MAX_def)
  ultimately show ?thesis using assms by (simp add: chunk_of_def)
qed

lemma spans_cover:
  assumes "0 < T" "n + T \<le> 18446744073709551616"
  shows "concat (map (span n ((n + T - 1) div T)) [0..<T]) = [0..<n]"
proof -
  let ?c = "(n + T - 1) div T"
  have le: "T * ?c \<le> n + T - 1" using assms(1) by (rule ceil_mult_le)
  have "\<forall>t<T. (t + 1) * ?c < 18446744073709551616"
  proof (intro allI impI)
    fix t assume "t < T"
    then have "(t + 1) * ?c \<le> T * ?c" by (intro mult_right_mono) simp_all
    with le assms show "(t + 1) * ?c < 18446744073709551616" by linarith
  qed
  then have "concat (map (span n ?c) [0..<T]) = [0..<min n (T * ?c)]" by (rule span_upto)
  moreover have "n \<le> T * ?c" using assms(1) by (rule ceil_mult_ge)
  ultimately show ?thesis by (simp add: min_absorb1)
qed

lemma tally_sum:
  assumes "in_bins data mn (length h) js"
  shows "sum_list (tally data mn js h) = sum_list h + length js"
  using count_range_sum [OF count_range_tally [OF assms]] .

lemma accumulate_tally:
  assumes "in_bins data mn bins [0..<n]" "n < 18446744073709551616"
  shows "accumulate (tally data mn [0..<n] (replicate bins 0)) = n"
  using tally_sum [of data mn "replicate bins 0" "[0..<n]"] assms
  by (simp add: accumulate_def u64_id sum_list_replicate)

lemma gen_covering:
  assumes "\<forall>t<T. \<forall>k. lo \<le> g t k \<and> g t k \<le> hi"
    and "\<forall>t<T. \<forall>j\<in>set (f t). j < n"
    and "set (concat (map f [0..<T])) = {0..<n}"
  shows "\<exists>data. for_each (\<lambda>t. fill (g t) 0 (f t)) [0..<T] (replicate n 0) = Inr data \<and>
           length data = n \<and> (\<forall>x\<in>set data. lo \<le> x \<and> x \<le> hi)"
proof -
  from for_each_fill [of "[0..<T]" "\<lambda>x. lo \<le> x \<and> x \<le> hi" g f "replicate n 0"] assms(1,2)
  obtain d' where d: "for_each (\<lambda>t. fill (g t) 0 (f t)) [0..<T] (replicate n 0) = Inr d'"
    "length d' = n"
    "\<forall>i<n. (lo \<le> replicate n (0::int) ! i \<and> replicate n (0::int) ! i \<le> hi) \<or> i \<in> set (concat (map f [0..<T]))
        \<longrightarrow> lo \<le> d' ! i \<and> d' ! i \<le> hi"
    by auto
  have "\<forall>i<n. lo \<le> d' ! i \<and> d' ! i \<le> hi"
  proof (intro allI impI)
    fix i assume i: "i < n"
    then have "i \<in> set (concat (map f [0..<T]))" unfolding assms(3) by simp
    with d(3) i show "lo \<le> d' ! i \<and> d' ! i \<le> hi" by blast
  qed
  then have "\<forall>x\<in>set d'. lo \<le> x \<and> x \<le> hi"
    using d(2) by (auto simp: in_set_conv_nth)
  with d show ?thesis by blast
qed

section \<open>One repetition of the thread backend\<close>

lemma rep_loop_all_next:
  "\<forall>r\<in>set rs. snd (body r) = Next \<Longrightarrow> rep_loop body rs = (concat (map (\<lambda>r. fst (body r)) rs), Exit 0)"
proof (induction rs)
  case Nil
  then show ?case by simp
next
  case (Cons r rs)
  then have "snd (body r) = Next" by simp
  then obtain ev where "body r = (ev, Next)" by (cases "body r") simp
  with Cons show ?case by simp
qed

lemma variants_histogram:
  assumes "length data = n" "\<forall>x\<in>set data. mn \<le> x \<and> x < mn + int bins"
    and "0 < T" "n + T \<le> 18446744073709551616" "chunk = (n + T - 1) div T"
  shows "hist_private data mn n chunk T bins = Inr (histogram_of data mn bins)"
    and "hist_atomic data mn n chunk T bins = Inr (histogram_of data mn bins)"
    and "hist_mutex data mn n chunk T bins = Inr (histogram_of data mn bins)"
proof -
  have cover: "concat (map (span n chunk) [0..<T]) = [0..<n]"
    unfolding assms(5) using assms(3,4) by (rule spans_cover)
  have ib: "\<forall>t<T. in_bins data mn bins (span n chunk t)"
    using assms(1,2) by (auto intro!: in_bins_data dest: span_below)
  have t: "tally data mn [0..<n] (replicate bins 0) = histogram_of data mn bins"
    using assms(1,2) by (rule tally_all_nth)
  show "hist_private data mn n chunk T bins = Inr (histogram_of data mn bins)"
    using hist_private_tally [OF ib] cover t by simp
  show "hist_atomic data mn n chunk T bins = Inr (histogram_of data mn bins)"
    using hist_atomic_tally [OF ib] cover t by simp
  show "hist_mutex data mn n chunk T bins = Inr (histogram_of data mn bins)"
    using hist_mutex_tally [OF ib] cover t by simp
qed

lemma threads_hist_histogram:
  assumes "length data = N a" "\<forall>x\<in>set data. minv a \<le> x \<and> x < minv a + int bins"
    and "0 < T" "N a + T \<le> 18446744073709551616"
  shows "threads_hist a data ((N a + T - 1) div T) T bins = Inr (histogram_of data (minv a) bins)"
  using variants_histogram [OF assms refl] by (simp add: threads_hist_def)

lemma accumulate_histogram:
  assumes "length data = n" "\<forall>x\<in>set data. mn \<le> x \<and> x < mn + int bins" "n < 18446744073709551616"
  shows "accumulate (histogram_of data mn bins) = n"
proof -
  have "in_bins data mn bins [0..<n]" using assms(1,2) by (intro in_bins_data) simp_all
  from accumulate_tally [OF this assms(3)] tally_all_nth [OF assms(1,2)] show ?thesis by simp
qed

lemma threads_gen_ok:
  assumes "draws_in_range draw" "minv a \<le> maxv a" "0 < T" "N a + T \<le> 18446744073709551616"
  shows "\<exists>data. threads_gen draw a T ((N a + T - 1) div T) r = Inr data \<and> length data = N a \<and>
           (\<forall>x\<in>set data. minv a \<le> x \<and> x \<le> maxv a)"
proof -
  let ?c = "(N a + T - 1) div T"
  have cover: "concat (map (span (N a) ?c) [0..<T]) = [0..<N a]"
    using assms(3,4) by (rule spans_cover)
  have "\<exists>data. for_each (\<lambda>t. fill (\<lambda>k. draw (worker_seed (seed a) t r) (minv a) (maxv a) k) 0 (span (N a) ?c t))
                  [0..<T] (replicate (N a) 0) = Inr data \<and>
           length data = N a \<and> (\<forall>x\<in>set data. minv a \<le> x \<and> x \<le> maxv a)"
  proof (rule gen_covering)
    show "\<forall>t<T. \<forall>k. minv a \<le> draw (worker_seed (seed a) t r) (minv a) (maxv a) k \<and>
            draw (worker_seed (seed a) t r) (minv a) (maxv a) k \<le> maxv a"
      using assms(1,2) by (simp add: draws_in_range_def)
    show "\<forall>t<T. \<forall>j\<in>set (span (N a) ?c t). j < N a" by (auto dest: span_below)
    show "set (concat (map (span (N a) ?c) [0..<T])) = {0..<N a}" unfolding cover by simp
  qed
  then show ?thesis by (simp add: threads_gen_def gen_worker_def [abs_def])
qed

lemma threads_rep_ok:
  assumes "draws_in_range draw" "minv a \<le> maxv a" "bins = maxv a - minv a + 1"
    and "1 \<le> T" "T \<le> INT_MAX" "N a < 9223372036854775808"
  shows "\<exists>data. threads_gen draw a (nat T) ((N a + nat T - 1) div nat T) r = Inr data \<and>
           length data = N a \<and> (\<forall>x\<in>set data. minv a \<le> x \<and> x \<le> maxv a) \<and>
           threads_hist a data ((N a + nat T - 1) div nat T) (nat T) (nat bins) =
             Inr (histogram_of data (minv a) (nat bins)) \<and>
           threads_rep draw a T bins r =
             ([Generated data, Counted (histogram_of data (minv a) (nat bins)),
               Stdout (threads_row a T bins)], Next)"
proof -
  let ?c = "(N a + nat T - 1) div nat T"
  have T: "0 < nat T" "N a + nat T \<le> 18446744073709551616"
    using assms(4,5,6) by (simp_all add: INT_MAX_def)
  from threads_gen_ok [OF assms(1,2) T] obtain data where
    d: "threads_gen draw a (nat T) ?c r = Inr data" "length data = N a"
       "\<forall>x\<in>set data. minv a \<le> x \<and> x \<le> maxv a"
    by blast
  have rng: "\<forall>x\<in>set data. minv a \<le> x \<and> x < minv a + int (nat bins)"
    using d(3) assms(2,3) by auto
  have h: "threads_hist a data ?c (nat T) (nat bins) = Inr (histogram_of data (minv a) (nat bins))"
    using d(2) rng T by (rule threads_hist_histogram)
  have s: "accumulate (histogram_of data (minv a) (nat bins)) = N a"
    using d(2) rng assms(6) by (intro accumulate_histogram) simp_all
  have c: "chunk_of (N a) (u64_of_int T) = Inr ?c"
    using assms(4,5,6) by (rule chunk_of_ok)
  have "threads_rep draw a T bins r =
          ([Generated data, Counted (histogram_of data (minv a) (nat bins)),
            Stdout (threads_row a T bins)], Next)"
    by (simp add: threads_rep_def c d(1) h s finish_rep_def threads_row_def del: One_nat_def)
  with d h show ?thesis by blast
qed

section \<open>Every schedule of the generation phase\<close>

lemma mset_concat_take_head:
  assumes "t < length ws" "ws ! t = i # js"
  shows "mset (concat ws) = add_mset i (mset (concat (ws[t := js])))"
proof -
  have a: "ws = take t ws @ (i # js) # drop (Suc t) ws"
    using assms by (metis id_take_nth_drop)
  have b: "ws[t := js] = take t ws @ js # drop (Suc t) ws"
    using assms(1) by (rule upd_conv_take_nth_drop)
  have "mset (concat ws) = mset (concat (take t ws @ (i # js) # drop (Suc t) ws))"
    using a by simp
  then show ?thesis unfolding b by simp
qed

lemma writes_of_Cons: "writes_of g k (i # js) = (i, g k) # writes_of g (Suc k) js"
  by (simp add: writes_of_def upt_conv_Cons del: upt_Suc)

lemma fill_apply:
  assumes "\<forall>j\<in>set js. j < length data"
  shows "fill g k js data = Inr (apply_writes (writes_of g k js) data)"
  using assms
proof (induction js arbitrary: k data)
  case Nil
  then show ?case by (simp add: apply_writes_def writes_of_def)
next
  case (Cons i js)
  have "\<forall>j\<in>set js. j < length (data[i := g k])" using Cons.prems by simp
  from Cons.IH [OF this, of "Suc k"] Cons.prems show ?case
    by (simp add: writes_of_Cons apply_writes_def)
qed

lemma length_apply_writes [simp]: "length (apply_writes ws data) = length data"
  unfolding apply_writes_def by (induction ws arbitrary: data) simp_all

lemma apply_writes_append:
  "apply_writes (xs @ ys) data = apply_writes ys (apply_writes xs data)"
  by (simp add: apply_writes_def)

lemma for_each_apply:
  assumes "\<forall>t\<in>set ts. \<forall>j\<in>set (f t). j < length data"
  shows "for_each (\<lambda>t. fill (g t) 0 (f t)) ts data =
           Inr (apply_writes (concat (map (\<lambda>t. writes_of (g t) 0 (f t)) ts)) data)"
  using assms
proof (induction ts arbitrary: data)
  case Nil
  then show ?case by (simp add: apply_writes_def)
next
  case (Cons t ts)
  have a: "fill (g t) 0 (f t) data = Inr (apply_writes (writes_of (g t) 0 (f t)) data)"
    using Cons.prems by (intro fill_apply) simp
  have "\<forall>u\<in>set ts. \<forall>j\<in>set (f u). j < length (apply_writes (writes_of (g t) 0 (f t)) data)"
    using Cons.prems by simp
  from Cons.IH [OF this] a show ?case by (simp add: apply_writes_append)
qed

lemma apply_writes_mset:
  assumes "mset xs = mset ys" "distinct (map fst xs)"
  shows "apply_writes xs = apply_writes ys"
  unfolding apply_writes_def [abs_def]
proof (rule fold_multiset_equiv [OF _ assms(1)])
  fix x y assume xy: "x \<in> set xs" "y \<in> set xs"
  show "(\<lambda>d. d[fst x := snd x]) \<circ> (\<lambda>d. d[fst y := snd y]) =
        (\<lambda>d. d[fst y := snd y]) \<circ> (\<lambda>d. d[fst x := snd x])"
  proof (cases "fst x = fst y")
    case True
    then have "x = y" using xy assms(2) by (metis distinct_map inj_onD)
    then show ?thesis by simp
  next
    case False
    then show ?thesis by (auto simp: fun_eq_iff list_update_swap)
  qed
qed

lemma write_step_inv:
  assumes "write_step (ws, data) (ws', data')" "distinct (map fst (concat ws))"
  shows "apply_writes (concat ws') data' = apply_writes (concat ws) data"
    and "distinct (map fst (concat ws'))"
    and "length data' = length data"
    and "set (concat ws') \<subseteq> set (concat ws)"
    and "length (concat ws) = Suc (length (concat ws'))"
proof -
  from assms(1) obtain t i v rest where
    s: "t < length ws" "ws ! t = (i, v) # rest" "i < length data" "ws' = ws[t := rest]"
       "data' = data[i := v]"
    by (auto elim: write_step.cases)
  have m: "mset (concat ws) = add_mset (i, v) (mset (concat ws'))"
    unfolding s(4) using s(1,2) by (rule mset_concat_take_head)
  then have m': "mset (concat ws) = mset ((i, v) # concat ws')" by simp
  from apply_writes_mset [OF m' assms(2)]
  show "apply_writes (concat ws') data' = apply_writes (concat ws) data"
    by (simp add: apply_writes_def s(5))
  have "mset (map fst (concat ws)) = mset (map fst ((i, v) # concat ws'))"
    using m' by (metis mset_map)
  then have "distinct (map fst ((i, v) # concat ws'))"
    using assms(2) by (metis mset_eq_imp_distinct_iff)
  then show "distinct (map fst (concat ws'))" by simp
  show "length data' = length data" using s(5) by simp
  have "set_mset (mset (concat ws')) \<subseteq> set_mset (mset (concat ws))" unfolding m by auto
  then show "set (concat ws') \<subseteq> set (concat ws)" by simp
  have "size (mset (concat ws)) = Suc (size (mset (concat ws')))" unfolding m by simp
  then show "length (concat ws) = Suc (length (concat ws'))" by simp
qed

lemma write_star_inv:
  assumes "write_step\<^sup>*\<^sup>* s s'" "distinct (map fst (concat (fst s)))"
  shows "apply_writes (concat (fst s')) (snd s') = apply_writes (concat (fst s)) (snd s) \<and>
         distinct (map fst (concat (fst s'))) \<and> length (snd s') = length (snd s) \<and>
         set (concat (fst s')) \<subseteq> set (concat (fst s))"
  using assms
proof (induction rule: rtranclp_induct)
  case base
  then show ?case by simp
next
  case (step y z)
  obtain ws d ws' d' where e: "y = (ws, d)" "z = (ws', d')" by (cases y, cases z) auto
  from step have d: "distinct (map fst (concat ws))" unfolding e by simp
  from step.hyps(2) have st: "write_step (ws, d) (ws', d')" unfolding e .
  from write_step_inv [OF st d] step.IH [OF step.prems] show ?case unfolding e by auto
qed

text \<open>
  Every schedule of a generation phase whose workers write different cells ends with the
  dataset that \<open>for_each\<close> computes.
\<close>

lemma generation_schedule_independent:
  assumes "distinct (concat (map f ts))" "\<forall>t\<in>set ts. \<forall>j\<in>set (f t). j < length data"
    and "write_step\<^sup>*\<^sup>* (map (\<lambda>t. writes_of (g t) 0 (f t)) ts, data) (ws', data')"
    and "concat ws' = []"
  shows "for_each (\<lambda>t. fill (g t) 0 (f t)) ts data = Inr data'"
proof -
  let ?ws = "map (\<lambda>t. writes_of (g t) 0 (f t)) ts"
  have "map fst (concat ?ws) = concat (map f ts)"
    by (induction ts) (simp_all add: writes_of_def)
  then have d: "distinct (map fst (concat (fst (?ws, data))))" using assms(1) by simp
  from write_star_inv [OF assms(3) d] assms(4)
  have "data' = apply_writes (concat ?ws) data" by (simp add: apply_writes_def)
  then show ?thesis using for_each_apply [OF assms(2), of g] by simp
qed

lemma threads_generation_schedule_independent:
  assumes "0 < T" "N a + T \<le> 18446744073709551616"
    and "write_step\<^sup>*\<^sup>*
           (map (\<lambda>t. writes_of (draw (worker_seed (seed a) t r) (minv a) (maxv a)) 0
                      (span (N a) ((N a + T - 1) div T) t)) [0..<T], replicate (N a) 0)
           (ws', data')"
    and "concat ws' = []"
  shows "threads_gen draw a T ((N a + T - 1) div T) r = Inr data'"
proof -
  have c: "concat (map (span (N a) ((N a + T - 1) div T)) [0..<T]) = [0..<N a]"
    using assms(1,2) by (rule spans_cover)
  have "for_each (\<lambda>t. fill (draw (worker_seed (seed a) t r) (minv a) (maxv a)) 0
                    (span (N a) ((N a + T - 1) div T) t)) [0..<T] (replicate (N a) 0) = Inr data'"
  proof (rule generation_schedule_independent [OF _ _ assms(3,4)])
    show "distinct (concat (map (span (N a) ((N a + T - 1) div T)) [0..<T]))"
      unfolding c by simp
    show "\<forall>t\<in>set [0..<T]. \<forall>j\<in>set (span (N a) ((N a + T - 1) div T) t).
            j < length (replicate (N a) (0::int))"
      by (auto dest: span_below)
  qed
  then show ?thesis by (simp add: threads_gen_def gen_worker_def [abs_def])
qed

lemma omp_generation_schedule_independent:
  assumes "N a < 9223372036854775808" "static_covers rt (N a) T"
    and "write_step\<^sup>*\<^sup>*
           (map (\<lambda>t. writes_of (draw (worker_seed (seed a) t r) (minv a) (maxv a)) 0
                      (rt_static rt (N a) T t)) [0..<T], replicate (N a) 0)
           (ws', data')"
    and "concat ws' = []"
  shows "omp_gen draw rt a T r = Inr data'"
proof -
  have m: "mset (concat (map (rt_static rt (N a) T) [0..<T])) = mset [0..<N a]"
    using assms(2) by (simp add: static_covers_def)
  have "for_each (\<lambda>t. fill (draw (worker_seed (seed a) t r) (minv a) (maxv a)) 0
                    (rt_static rt (N a) T t)) [0..<T] (replicate (N a) 0) = Inr data'"
  proof (rule generation_schedule_independent [OF _ _ assms(3,4)])
    show "distinct (concat (map (rt_static rt (N a) T) [0..<T]))"
      using m by (metis distinct_upt mset_eq_imp_distinct_iff)
    have "set (concat (map (rt_static rt (N a) T) [0..<T])) = set [0..<N a]"
      using m by (rule mset_eq_setD)
    then show "\<forall>t\<in>set [0..<T]. \<forall>j\<in>set (rt_static rt (N a) T t).
            j < length (replicate (N a) (0::int))"
      by fastforce
  qed
  then show ?thesis
    using assms(1) by (simp add: omp_gen_def omp_gen_worker_def [abs_def] ll_trip_def)
qed

section \<open>Every schedule of the atomic variant\<close>

lemma atomic_step_inv:
  assumes "atomic_step data mn (ws, h) (ws', h')"
  shows "tally data mn (concat ws') h' = tally data mn (concat ws) h"
    and "length h' = length h"
    and "length (concat ws) = Suc (length (concat ws'))"
    and "set (concat ws') \<subseteq> set (concat ws)"
    and "length ws' = length ws"
proof -
  from assms obtain t i js where
    s: "t < length ws" "ws ! t = i # js" "bump data mn i h = Inr h'" "ws' = ws[t := js]"
    by (auto elim: atomic_step.cases)
  have m: "mset (concat ws) = add_mset i (mset (concat ws'))"
    unfolding s(4) using s(1,2) by (rule mset_concat_take_head)
  then have "mset (concat ws) = mset (i # concat ws')" by simp
  then have "tally data mn (concat ws) h = tally data mn (i # concat ws') h" by (rule tally_mset)
  also have "\<dots> = tally data mn (concat ws') h'" using bump_tally [OF s(3)] by simp
  finally show "tally data mn (concat ws') h' = tally data mn (concat ws) h" by simp
  show "length h' = length h" using s(3) by (rule bump_length)
  have "size (mset (concat ws)) = Suc (size (mset (concat ws')))" unfolding m by simp
  then show "length (concat ws) = Suc (length (concat ws'))" by simp
  have "set_mset (mset (concat ws')) \<subseteq> set_mset (mset (concat ws))" unfolding m by auto
  then show "set (concat ws') \<subseteq> set (concat ws)" by simp
  show "length ws' = length ws" using s(4) by simp
qed

lemma atomic_star_inv:
  assumes "(atomic_step data mn)\<^sup>*\<^sup>* s s'"
  shows "tally data mn (concat (fst s')) (snd s') = tally data mn (concat (fst s)) (snd s) \<and>
         length (snd s') = length (snd s) \<and> set (concat (fst s')) \<subseteq> set (concat (fst s))"
  using assms
proof (induction rule: rtranclp_induct)
  case base
  then show ?case by simp
next
  case (step y z)
  obtain ws h ws' h' where e: "y = (ws, h)" "z = (ws', h')" by (cases y, cases z) auto
  from step.hyps(2) have st: "atomic_step data mn (ws, h) (ws', h')" unfolding e .
  from atomic_step_inv [OF st] step.IH show ?case unfolding e by auto
qed

lemma atomic_final:
  assumes "(atomic_step data mn)\<^sup>*\<^sup>* (ws, h) (ws', h')" "atomic_done (ws', h')"
  shows "h' = tally data mn (concat ws) h"
proof -
  from assms(2) have c: "concat ws' = []" unfolding atomic_done_def by simp
  from atomic_star_inv [OF assms(1)]
  have "tally data mn (concat ws') h' = tally data mn (concat ws) h" by simp
  then show ?thesis unfolding c by simp
qed

lemma atomic_progress:
  assumes "in_bins data mn (length h) (concat ws)" "\<not> atomic_done (ws, h)"
  shows "\<exists>s'. atomic_step data mn (ws, h) s'"
proof -
  from assms(2) obtain w where w: "w \<in> set ws" "w \<noteq> []"
    by (auto simp: atomic_done_def)
  then obtain t where t: "t < length ws" "ws ! t = w" by (auto simp: in_set_conv_nth)
  from w(2) obtain i js where c: "w = i # js" by (cases w) auto
  have "i \<in> set (concat ws)" using w(1) c by force
  then obtain b where "bin_index data mn (length h) i = Some b"
    using assms(1) by (auto simp: in_bins_def)
  then have "bump data mn i h = Inr (h[b := h ! b + 1])" by (simp add: bump_def)
  with t c have "atomic_step data mn (ws, h) (ws[t := js], h[b := h ! b + 1])"
    by (intro atomic_step.incr) simp_all
  then show ?thesis by blast
qed

lemma atomic_safe:
  assumes "(atomic_step data mn)\<^sup>*\<^sup>* (ws, h) s'" "in_bins data mn (length h) (concat ws)"
  shows "atomic_done s' \<or> (\<exists>s''. atomic_step data mn s' s'')"
proof -
  obtain ws' h' where e: "s' = (ws', h')" by (cases s')
  from atomic_star_inv [OF assms(1)] have "length h' = length h" "set (concat ws') \<subseteq> set (concat ws)"
    unfolding e by simp_all
  with assms(2) have "in_bins data mn (length h') (concat ws')"
    by (auto simp: in_bins_def)
  then show ?thesis unfolding e using atomic_progress by blast
qed

lemma atomic_step_decreases:
  "atomic_step data mn s s' \<Longrightarrow> work_left s = Suc (work_left s')"
  by (cases s, cases s') (simp add: work_left_def atomic_step_inv(3))

lemma atomic_steps_bounded:
  "(atomic_step data mn ^^ k) s s' \<Longrightarrow> work_left s = k + work_left s'"
proof (induction k arbitrary: s')
  case 0
  then show ?case by simp
next
  case (Suc k)
  then obtain y where "(atomic_step data mn ^^ k) s y" "atomic_step data mn y s'" by auto
  with Suc.IH [of y] atomic_step_decreases [of data mn y s'] show ?case by simp
qed

lemma atomic_completes:
  assumes "in_bins data mn (length h) (concat ws)"
  shows "\<exists>ws' h'. (atomic_step data mn)\<^sup>*\<^sup>* (ws, h) (ws', h') \<and> atomic_done (ws', h')"
  using assms
proof (induction "length (concat ws)" arbitrary: ws h)
  case 0
  then have "atomic_done (ws, h)" by (simp add: atomic_done_def)
  then show ?case by blast
next
  case (Suc k)
  from Suc.hyps(2) have "concat ws \<noteq> []" by (metis length_0_conv nat.distinct(1))
  then have "\<not> atomic_done (ws, h)" unfolding atomic_done_def by simp
  from atomic_progress [OF Suc.prems this] obtain ws1 h1 where
    st: "atomic_step data mn (ws, h) (ws1, h1)" by auto
  from atomic_step_inv [OF st] Suc.hyps(2) Suc.prems
  have "k = length (concat ws1)" "in_bins data mn (length h1) (concat ws1)"
    by (auto simp: in_bins_def)
  from Suc.hyps(1) [OF this] obtain ws' h' where
    "(atomic_step data mn)\<^sup>*\<^sup>* (ws1, h1) (ws', h')" "atomic_done (ws', h')" by blast
  with st show ?case by (meson converse_rtranclp_into_rtranclp)
qed

section \<open>Every schedule of the mutex variant\<close>

lemma holds_simps [simp]:
  "holds data mn bins ([], ph) = None"
  "holds data mn bins (js, Idle) = None"
  "ph \<noteq> Idle \<Longrightarrow> holds data mn bins (i # js, ph) = bin_index data mn bins i"
  by (auto simp: holds_def split: list.splits)

lemma mutex_init_inv: "mutex_inv data mn (mutex_init ws bins)"
  by (auto simp: mutex_inv_def mutex_init_def)

lemma mutex_invD:
  assumes "mutex_inv data mn (ws, h, m)"
  shows "length m = length h"
    and "\<And>t. t < length ws \<Longrightarrow> snd (ws ! t) \<noteq> Idle \<Longrightarrow>
           \<exists>b. holds data mn (length h) (ws ! t) = Some b \<and> m ! b"
    and "\<And>t u b. t < length ws \<Longrightarrow> u < length ws \<Longrightarrow> t \<noteq> u \<Longrightarrow>
           holds data mn (length h) (ws ! t) = Some b \<Longrightarrow> holds data mn (length h) (ws ! u) \<noteq> Some b"
    and "\<And>t v b. t < length ws \<Longrightarrow> snd (ws ! t) = Loaded v \<Longrightarrow>
           holds data mn (length h) (ws ! t) = Some b \<Longrightarrow> v = h ! b"
    and "\<And>b. b < length m \<Longrightarrow> m ! b \<Longrightarrow> \<exists>t<length ws. holds data mn (length h) (ws ! t) = Some b"
  using assms unfolding mutex_inv_def prod.case by blast+

lemma mutex_invI:
  assumes "length m = length h"
    and "\<And>t. t < length ws \<Longrightarrow> snd (ws ! t) \<noteq> Idle \<Longrightarrow>
           \<exists>b. holds data mn (length h) (ws ! t) = Some b \<and> m ! b"
    and "\<And>t u b. t < length ws \<Longrightarrow> u < length ws \<Longrightarrow> t \<noteq> u \<Longrightarrow>
           holds data mn (length h) (ws ! t) = Some b \<Longrightarrow> holds data mn (length h) (ws ! u) \<noteq> Some b"
    and "\<And>t v b. t < length ws \<Longrightarrow> snd (ws ! t) = Loaded v \<Longrightarrow>
           holds data mn (length h) (ws ! t) = Some b \<Longrightarrow> v = h ! b"
    and "\<And>b. b < length m \<Longrightarrow> m ! b \<Longrightarrow> \<exists>t<length ws. holds data mn (length h) (ws ! t) = Some b"
  shows "mutex_inv data mn (ws, h, m)"
  unfolding mutex_inv_def prod.case using assms by blast

lemma holds_not_Idle: "holds data mn bins w = Some b \<Longrightarrow> snd w \<noteq> Idle"
  by (cases w) (auto simp: holds_def split: list.splits if_splits)

lemma mutex_step_inv:
  assumes "mutex_step data mn s s'" "mutex_inv data mn s"
  shows "mutex_inv data mn s'"
  using assms
proof (induction rule: mutex_step.induct)
  case (acquire t ws i js m b h)
  let ?ws = "ws[t := (i # js, Locked)]"
  note I = mutex_invD [OF acquire.prems]
  have b: "b < length m" "bin_index data mn (length h) i = Some b"
    using acquire.hyps I(1) by (auto dest: bin_index_less)
  have nb: "holds data mn (length h) (ws ! u) \<noteq> Some b" if "u < length ws" for u
  proof
    assume u: "holds data mn (length h) (ws ! u) = Some b"
    then have "snd (ws ! u) \<noteq> Idle" by (rule holds_not_Idle)
    from I(2) [OF that this] u have "m ! b" by auto
    with acquire.hyps show False by simp
  qed
  have hu: "holds data mn (length h) (?ws ! u) =
              (if u = t then Some b else holds data mn (length h) (ws ! u))" if "u < length ws" for u
    using that acquire.hyps b by (auto simp: nth_list_update)
  show ?case
  proof (rule mutex_invI)
    show "length (m[b := True]) = length h" using I(1) by simp
  next
    fix u assume u: "u < length ?ws" "snd (?ws ! u) \<noteq> Idle"
    show "\<exists>b'. holds data mn (length h) (?ws ! u) = Some b' \<and> m[b := True] ! b'"
    proof (cases "u = t")
      case True
      then show ?thesis using hu [of t] acquire.hyps b by simp
    next
      case False
      then have "snd (ws ! u) \<noteq> Idle" using u by simp
      with I(2) [of u] u obtain b' where "holds data mn (length h) (ws ! u) = Some b'" "m ! b'" by auto
      then show ?thesis using False u b hu [of u] by (auto simp: nth_list_update)
    qed
  next
    fix u v b' assume uv: "u < length ?ws" "v < length ?ws" "u \<noteq> v"
      "holds data mn (length h) (?ws ! u) = Some b'"
    then show "holds data mn (length h) (?ws ! v) \<noteq> Some b'"
      using hu [of u] hu [of v] nb [of u] nb [of v] I(3) [of u v b'] by (auto split: if_splits)
  next
    fix u v b' assume u: "u < length ?ws" "snd (?ws ! u) = Loaded v"
      "holds data mn (length h) (?ws ! u) = Some b'"
    then have ut: "u \<noteq> t" using acquire.hyps by auto
    then show "v = h ! b'" using u I(4) [of u v b'] by simp
  next
    fix b' assume b': "b' < length (m[b := True])" "m[b := True] ! b'"
    show "\<exists>u<length ?ws. holds data mn (length h) (?ws ! u) = Some b'"
    proof (cases "b' = b")
      case True
      then show ?thesis using hu [of t] acquire.hyps by auto
    next
      case False
      then have "m ! b'" using b' by simp
      with I(5) [of b'] b' obtain u where u: "u < length ws" "holds data mn (length h) (ws ! u) = Some b'" by auto
      then have "u \<noteq> t" using acquire.hyps by auto
      then show ?thesis using u hu [of u] by auto
    qed
  qed
next
  case (load t ws i js h b m)
  let ?ws = "ws[t := (i # js, Loaded (h ! b))]"
  note I = mutex_invD [OF load.prems]
  have hu: "holds data mn (length h) (?ws ! u) = holds data mn (length h) (ws ! u)" if "u < length ws" for u
    using that load.hyps by (cases "u = t") (auto simp: nth_list_update)
  have ht: "holds data mn (length h) (ws ! t) = Some b" using load.hyps by simp
  show ?case
  proof (rule mutex_invI)
    show "length m = length h" by (rule I(1))
  next
    fix u assume u: "u < length ?ws" "snd (?ws ! u) \<noteq> Idle"
    then have "snd (ws ! u) \<noteq> Idle" using load.hyps by (cases "u = t") auto
    with I(2) [of u] u hu [of u] show "\<exists>b'. holds data mn (length h) (?ws ! u) = Some b' \<and> m ! b'" by simp
  next
    fix u v b' assume "u < length ?ws" "v < length ?ws" "u \<noteq> v" "holds data mn (length h) (?ws ! u) = Some b'"
    then show "holds data mn (length h) (?ws ! v) \<noteq> Some b'"
      using hu [of u] hu [of v] I(3) [of u v b'] by simp
  next
    fix u v b' assume u: "u < length ?ws" "snd (?ws ! u) = Loaded v" "holds data mn (length h) (?ws ! u) = Some b'"
    show "v = h ! b'"
    proof (cases "u = t")
      case True
      then show ?thesis using u ht hu [of t] load.hyps by simp
    next
      case False
      then show ?thesis using u I(4) [of u v b'] by simp
    qed
  next
    fix b' assume "b' < length m" "m ! b'"
    from I(5) [OF this] obtain u where "u < length ws" "holds data mn (length h) (ws ! u) = Some b'" by auto
    then show "\<exists>u<length ?ws. holds data mn (length h) (?ws ! u) = Some b'" using hu [of u] by auto
  qed
next
  case (store t ws i js v h b m)
  let ?ws = "ws[t := (i # js, Stored)]"
  let ?h = "h[b := v + 1]"
  note I = mutex_invD [OF store.prems]
  have hu: "holds data mn (length ?h) (?ws ! u) = holds data mn (length h) (ws ! u)" if "u < length ws" for u
    using that store.hyps by (cases "u = t") (auto simp: nth_list_update)
  have ht: "holds data mn (length h) (ws ! t) = Some b" using store.hyps by simp
  show ?case
  proof (rule mutex_invI)
    show "length m = length ?h" using I(1) by simp
  next
    fix u assume u: "u < length ?ws" "snd (?ws ! u) \<noteq> Idle"
    then have "snd (ws ! u) \<noteq> Idle" using store.hyps by (cases "u = t") auto
    with I(2) [of u] u hu [of u] show "\<exists>b'. holds data mn (length ?h) (?ws ! u) = Some b' \<and> m ! b'" by simp
  next
    fix u v' b' assume "u < length ?ws" "v' < length ?ws" "u \<noteq> v'" "holds data mn (length ?h) (?ws ! u) = Some b'"
    then show "holds data mn (length ?h) (?ws ! v') \<noteq> Some b'"
      using hu [of u] hu [of v'] I(3) [of u v' b'] by simp
  next
    fix u v' b' assume u: "u < length ?ws" "snd (?ws ! u) = Loaded v'" "holds data mn (length ?h) (?ws ! u) = Some b'"
    then have ut: "u \<noteq> t" using store.hyps by auto
    then have "holds data mn (length h) (ws ! u) = Some b'" "snd (ws ! u) = Loaded v'"
      using u hu [of u] by simp_all
    moreover from this I(3) [of u t b'] ut u store.hyps ht have "b' \<noteq> b" by auto
    ultimately show "v' = ?h ! b'" using I(4) [of u v' b'] u by simp
  next
    fix b' assume "b' < length m" "m ! b'"
    from I(5) [OF this] obtain u where "u < length ws" "holds data mn (length h) (ws ! u) = Some b'" by auto
    then show "\<exists>u<length ?ws. holds data mn (length ?h) (?ws ! u) = Some b'" using hu [of u] by auto
  qed
next
  case (release t ws i js m b h)
  let ?ws = "ws[t := (js, Idle)]"
  note I = mutex_invD [OF release.prems]
  have ht: "holds data mn (length h) (ws ! t) = Some b" using release.hyps I(1) by simp
  have hu: "holds data mn (length h) (?ws ! u) =
              (if u = t then None else holds data mn (length h) (ws ! u))" if "u < length ws" for u
    using that release.hyps by (auto simp: nth_list_update)
  have other: "holds data mn (length h) (ws ! u) \<noteq> Some b" if "u < length ws" "u \<noteq> t" for u
    using I(3) [of t u b] that release.hyps ht by simp
  show ?case
  proof (rule mutex_invI)
    show "length (m[b := False]) = length h" using I(1) by simp
  next
    fix u assume u: "u < length ?ws" "snd (?ws ! u) \<noteq> Idle"
    then have ut: "u \<noteq> t" using release.hyps by auto
    then have "snd (ws ! u) \<noteq> Idle" using u by simp
    with I(2) [of u] u obtain b' where b': "holds data mn (length h) (ws ! u) = Some b'" "m ! b'" by auto
    then have "b' \<noteq> b" using other [of u] u ut by auto
    then show "\<exists>b'. holds data mn (length h) (?ws ! u) = Some b' \<and> m[b := False] ! b'"
      using b' hu [of u] u ut by auto
  next
    fix u v b' assume "u < length ?ws" "v < length ?ws" "u \<noteq> v" "holds data mn (length h) (?ws ! u) = Some b'"
    then show "holds data mn (length h) (?ws ! v) \<noteq> Some b'"
      using hu [of u] hu [of v] I(3) [of u v b'] by (auto split: if_splits)
  next
    fix u v b' assume u: "u < length ?ws" "snd (?ws ! u) = Loaded v" "holds data mn (length h) (?ws ! u) = Some b'"
    then have "u \<noteq> t" using release.hyps by auto
    then show "v = h ! b'" using u I(4) [of u v b'] by simp
  next
    fix b' assume b': "b' < length (m[b := False])" "m[b := False] ! b'"
    then have nb: "b' \<noteq> b" by (auto simp: nth_list_update split: if_splits)
    then have "m ! b'" using b' by simp
    with I(5) [of b'] b' obtain u where u: "u < length ws" "holds data mn (length h) (ws ! u) = Some b'" by auto
    then have "u \<noteq> t" using ht nb by auto
    then show "\<exists>u<length ?ws. holds data mn (length h) (?ws ! u) = Some b'" using u hu [of u] by auto
  qed
qed

lemma owed_simps [simp]:
  "owed (js, Idle) = js" "owed (js, Locked) = js" "owed (js, Loaded v) = js" "owed (i # js, Stored) = js"
  by (simp_all add: owed_def)

lemma mutex_step_owed:
  assumes "mutex_step data mn (ws, h, m) (ws', h', m')" "mutex_inv data mn (ws, h, m)"
  shows "tally data mn (concat (map owed ws')) h' = tally data mn (concat (map owed ws)) h"
    and "length h' = length h"
    and "set (concat (map fst ws')) \<subseteq> set (concat (map fst ws))"
proof -
  note I = mutex_invD [OF assms(2)]
  have same: "map owed (ws[t := w']) = map owed ws" if "t < length ws" "owed w' = owed (ws ! t)" for t w'
    using that by (simp add: map_update list_update_same_conv)
  have keep: "set (concat (map fst (ws[t := (i # js, ph)]))) \<subseteq> set (concat (map fst ws))"
    if "t < length ws" "fst (ws ! t) = i # js" for t i js ph
  proof -
    have "map fst (ws[t := (i # js, ph)]) = map fst ws"
      using that by (simp add: map_update list_update_same_conv)
    then show ?thesis by simp
  qed
  from assms(1) show "tally data mn (concat (map owed ws')) h' = tally data mn (concat (map owed ws)) h"
  proof (cases rule: mutex_step.cases)
    case (acquire t i js b)
    then show ?thesis using same [of t "(i # js, Locked)"] by simp
  next
    case (load t i js b)
    then show ?thesis using same [of t "(i # js, Loaded (h ! b))"] by simp
  next
    case (store t i js v b)
    have "holds data mn (length h) (ws ! t) = Some b" using store by simp
    from I(4) [OF store(4) _ this] store have v: "v = h ! b" by simp
    have bu: "bump data mn i h = Inr h'" using store v by (simp add: bump_def)
    have t: "t < length (map owed ws)" "map owed ws ! t = i # js" using store by simp_all
    have "mset (concat (map owed ws)) = add_mset i (mset (concat ((map owed ws)[t := js])))"
      using t by (rule mset_concat_take_head)
    moreover have "(map owed ws)[t := js] = map owed ws'" using store by (simp add: map_update)
    ultimately have "mset (concat (map owed ws)) = mset (i # concat (map owed ws'))" by simp
    then have "tally data mn (concat (map owed ws)) h = tally data mn (i # concat (map owed ws')) h"
      by (rule tally_mset)
    then show ?thesis using bump_tally [OF bu] by simp
  next
    case (release t i js b)
    then show ?thesis using same [of t "(js, Idle)"] by simp
  qed
  from assms(1) show "length h' = length h"
    by (cases rule: mutex_step.cases) simp_all
  from assms(1) show "set (concat (map fst ws')) \<subseteq> set (concat (map fst ws))"
  proof (cases rule: mutex_step.cases)
    case (acquire t i js b)
    then show ?thesis using keep [of t i js Locked] by simp
  next
    case (load t i js b)
    then show ?thesis using keep [of t i js "Loaded (h ! b)"] by simp
  next
    case (store t i js v b)
    then show ?thesis using keep [of t i js Stored] by simp
  next
    case (release t i js b)
    have a: "ws = take t ws @ (i # js, Stored) # drop (Suc t) ws"
      using release by (metis id_take_nth_drop)
    have b: "ws' = take t ws @ (js, Idle) # drop (Suc t) ws"
      using release by (simp add: upd_conv_take_nth_drop)
    have "set (concat (map fst (take t ws @ (js, Idle) # drop (Suc t) ws)))
            \<subseteq> set (concat (map fst (take t ws @ (i # js, Stored) # drop (Suc t) ws)))"
      by auto
    then show ?thesis using a b by simp
  qed
qed

lemma mutex_star_inv:
  assumes "(mutex_step data mn)\<^sup>*\<^sup>* s s'" "mutex_inv data mn s"
  shows "mutex_inv data mn s' \<and> mutex_goal data mn s' = mutex_goal data mn s \<and>
         length (fst (snd s')) = length (fst (snd s)) \<and>
         set (concat (map fst (fst s'))) \<subseteq> set (concat (map fst (fst s)))"
  using assms
proof (induction rule: rtranclp_induct)
  case base
  then show ?case by simp
next
  case (step y z)
  obtain ws h m ws' h' m' where e: "y = (ws, h, m)" "z = (ws', h', m')"
    by (cases y, cases z) auto
  from step have inv: "mutex_inv data mn (ws, h, m)" unfolding e by simp
  from step.hyps(2) have st: "mutex_step data mn (ws, h, m) (ws', h', m')" unfolding e .
  from mutex_step_owed [OF st inv] mutex_step_inv [OF st inv] step.IH [OF step.prems]
  show ?case unfolding e mutex_goal_def by auto
qed

lemma mutex_final:
  assumes "(mutex_step data mn)\<^sup>*\<^sup>* (mutex_init work bins) (ws', h', m')" "mutex_done (ws', h', m')"
  shows "h' = tally data mn (concat work) (replicate bins 0)"
proof -
  from mutex_star_inv [OF assms(1) mutex_init_inv]
  have g: "mutex_goal data mn (ws', h', m') = mutex_goal data mn (mutex_init work bins)" by simp
  have "\<forall>w\<in>set ws'. fst w = []" using assms(2) by (simp add: mutex_done_def)
  then have "\<forall>w\<in>set ws'. owed w = []" by (simp add: owed_def)
  then have c: "concat (map owed ws') = []" by simp
  have "mutex_goal data mn (ws', h', m') = h'" unfolding mutex_goal_def fst_conv snd_conv c by simp
  moreover have "mutex_goal data mn (mutex_init work bins) = tally data mn (concat work) (replicate bins 0)"
    by (simp add: mutex_goal_def mutex_init_def o_def)
  ultimately show ?thesis using g by simp
qed

lemma mutex_progress:
  assumes "mutex_inv data mn (ws, h, m)" "in_bins data mn (length h) (concat (map fst ws))"
    and "\<not> mutex_done (ws, h, m)"
  shows "\<exists>s'. mutex_step data mn (ws, h, m) s'"
proof -
  note I = mutex_invD [OF assms(1)]
  show ?thesis
  proof (cases "\<exists>t<length ws. snd (ws ! t) \<noteq> Idle")
    case True
    then obtain t where t: "t < length ws" "snd (ws ! t) \<noteq> Idle" by blast
    from I(2) [OF this] obtain b where b: "holds data mn (length h) (ws ! t) = Some b" by blast
    then obtain i js ph where w: "ws ! t = (i # js, ph)"
      by (cases "ws ! t"; cases "fst (ws ! t)") (auto simp: holds_def)
    with b t have bi: "bin_index data mn (length h) i = Some b" by simp
    show ?thesis
    proof (cases ph)
      case Idle
      then show ?thesis using t w by simp
    next
      case Locked
      with t w bi show ?thesis by (blast intro: mutex_step.load)
    next
      case (Loaded v)
      with t w bi show ?thesis by (blast intro: mutex_step.store)
    next
      case Stored
      with t w bi I(1) show ?thesis by (metis mutex_step.release)
    qed
  next
    case False
    from assms(3) obtain w where w: "w \<in> set ws" "fst w \<noteq> []" by (auto simp: mutex_done_def)
    then obtain t where t: "t < length ws" "ws ! t = w" by (auto simp: in_set_conv_nth)
    from w(2) obtain i js where c: "fst w = i # js" by (cases "fst w") auto
    have ph: "snd w = Idle" using False t by auto
    have "i \<in> set (concat (map fst ws))" using w(1) c by force
    then obtain b where b: "bin_index data mn (length h) i = Some b"
      using assms(2) by (auto simp: in_bins_def)
    have free: "\<not> m ! b"
    proof
      assume "m ! b"
      moreover have "b < length m" using b I(1) by (auto dest: bin_index_less)
      ultimately obtain u where u: "u < length ws" "holds data mn (length h) (ws ! u) = Some b"
        using I(5) by blast
      then have "snd (ws ! u) \<noteq> Idle" by (auto dest: holds_not_Idle)
      with False u show False by blast
    qed
    have "ws ! t = (i # js, Idle)" using t c ph by (cases w) auto
    with t b free I(1) show ?thesis by (metis mutex_step.acquire)
  qed
qed

lemma sum_list_update_Suc:
  assumes "t < length ws" "f (ws ! t) = Suc (f w')"
  shows "sum_list (map f ws) = Suc (sum_list (map f (ws[t := w'])))"
proof -
  have a: "ws = take t ws @ ws ! t # drop (Suc t) ws"
    using assms(1) by (simp add: id_take_nth_drop)
  have b: "ws[t := w'] = take t ws @ w' # drop (Suc t) ws"
    using assms(1) by (rule upd_conv_take_nth_drop)
  have "sum_list (map f ws) = sum_list (map f (take t ws @ ws ! t # drop (Suc t) ws))"
    using a by simp
  then show ?thesis unfolding b using assms(2) by simp
qed

lemma mutex_step_decreases:
  assumes "mutex_step data mn s s'"
  shows "mutex_left s = Suc (mutex_left s')"
  using assms unfolding mutex_left_def
  by (induction rule: mutex_step.induct) (simp_all add: sum_list_update_Suc weight_def)

lemma mutex_steps_bounded:
  "(mutex_step data mn ^^ k) s s' \<Longrightarrow> mutex_left s = k + mutex_left s'"
proof (induction k arbitrary: s')
  case 0
  then show ?case by simp
next
  case (Suc k)
  then obtain y where "(mutex_step data mn ^^ k) s y" "mutex_step data mn y s'" by auto
  with Suc.IH [of y] mutex_step_decreases [of data mn y s'] show ?case by simp
qed

lemma mutex_safe:
  assumes "(mutex_step data mn)\<^sup>*\<^sup>* (mutex_init work bins) s'" "in_bins data mn bins (concat work)"
  shows "mutex_done s' \<or> (\<exists>s''. mutex_step data mn s' s'')"
proof -
  obtain ws' h' m' where e: "s' = (ws', h', m')" by (cases s')
  from mutex_star_inv [OF assms(1) mutex_init_inv]
  have "mutex_inv data mn (ws', h', m')" "length h' = bins"
    "set (concat (map fst ws')) \<subseteq> set (concat work)"
    unfolding e by (simp_all add: mutex_init_def o_def)
  moreover from this assms(2) have "in_bins data mn (length h') (concat (map fst ws'))"
    by (auto simp: in_bins_def)
  ultimately show ?thesis unfolding e using mutex_progress by blast
qed

lemma mutex_completes_from:
  assumes "mutex_inv data mn s" "in_bins data mn (length (fst (snd s))) (concat (map fst (fst s)))"
  shows "\<exists>s'. (mutex_step data mn)\<^sup>*\<^sup>* s s' \<and> mutex_done s'"
  using assms
proof (induction "mutex_left s" arbitrary: s)
  case 0
  show ?case
  proof (cases "mutex_done s")
    case True
    then show ?thesis by blast
  next
    case False
    obtain ws h m where e: "s = (ws, h, m)" by (cases s)
    from mutex_progress [of data mn ws h m] 0 False obtain s1 where "mutex_step data mn s s1"
      unfolding e by auto
    from mutex_step_decreases [OF this] 0 show ?thesis by simp
  qed
next
  case (Suc k)
  show ?case
  proof (cases "mutex_done s")
    case True
    then show ?thesis by blast
  next
    case False
    obtain ws h m where e: "s = (ws, h, m)" by (cases s)
    from mutex_progress [of data mn ws h m] Suc.prems False obtain s1 where st: "mutex_step data mn s s1"
      unfolding e by auto
    obtain ws1 h1 m1 where e1: "s1 = (ws1, h1, m1)" by (cases s1)
    have k: "k = mutex_left s1" using mutex_step_decreases [OF st] Suc.hyps(2) by simp
    have i1: "mutex_inv data mn s1" using st Suc.prems(1) by (rule mutex_step_inv)
    have "in_bins data mn (length (fst (snd s1))) (concat (map fst (fst s1)))"
      using mutex_step_owed(2,3) [OF st [unfolded e e1] Suc.prems(1) [unfolded e]] Suc.prems(2)
      unfolding e e1 by (auto simp: in_bins_def)
    from Suc.hyps(1) [OF k i1 this] obtain s' where
      "(mutex_step data mn)\<^sup>*\<^sup>* s1 s'" "mutex_done s'" by blast
    with st show ?thesis by (meson converse_rtranclp_into_rtranclp)
  qed
qed

lemma mutex_completes:
  assumes "in_bins data mn bins (concat work)"
  shows "\<exists>s'. (mutex_step data mn)\<^sup>*\<^sup>* (mutex_init work bins) s' \<and> mutex_done s'"
  by (rule mutex_completes_from [OF mutex_init_inv]) (use assms in \<open>simp add: mutex_init_def o_def\<close>)

section \<open>One repetition of the OpenMP backend and of the baseline\<close>

lemma static_covers_set:
  assumes "static_covers rt n T"
  shows "set (concat (map (rt_static rt n T) [0..<T])) = {0..<n}"
proof -
  have "set_mset (mset (concat (map (rt_static rt n T) [0..<T]))) = set_mset (mset [0..<n])"
    using assms unfolding static_covers_def by simp
  then show ?thesis by simp
qed

lemma static_covers_below:
  assumes "static_covers rt n T" "t < T" "j \<in> set (rt_static rt n T t)"
  shows "j < n"
proof -
  have "j \<in> set (concat (map (rt_static rt n T) [0..<T]))" using assms(2,3) by auto
  then show ?thesis unfolding static_covers_set [OF assms(1)] by simp
qed

lemma omp_gen_ok:
  assumes "draws_in_range draw" "minv a \<le> maxv a" "N a < 9223372036854775808"
    and "static_covers rt (N a) T"
  shows "\<exists>data. omp_gen draw rt a T r = Inr data \<and> length data = N a \<and>
           (\<forall>x\<in>set data. minv a \<le> x \<and> x \<le> maxv a)"
proof -
  have trip: "ll_trip (N a) = N a" using assms(3) by (simp add: ll_trip_def)
  have "\<exists>data. for_each (\<lambda>t. fill (\<lambda>k. draw (worker_seed (seed a) t r) (minv a) (maxv a) k) 0
                    (rt_static rt (N a) T t)) [0..<T] (replicate (N a) 0) = Inr data \<and>
           length data = N a \<and> (\<forall>x\<in>set data. minv a \<le> x \<and> x \<le> maxv a)"
  proof (rule gen_covering)
    show "\<forall>t<T. \<forall>k. minv a \<le> draw (worker_seed (seed a) t r) (minv a) (maxv a) k \<and>
            draw (worker_seed (seed a) t r) (minv a) (maxv a) k \<le> maxv a"
      using assms(1,2) by (simp add: draws_in_range_def)
    show "\<forall>t<T. \<forall>j\<in>set (rt_static rt (N a) T t). j < N a"
      using static_covers_below [OF assms(4)] by blast
    show "set (concat (map (rt_static rt (N a) T) [0..<T])) = {0..<N a}"
      using assms(4) by (rule static_covers_set)
  qed
  then show ?thesis by (simp add: omp_gen_def omp_gen_worker_def [abs_def] trip)
qed

lemma omp_private_worker_tally:
  assumes "in_bins data mn bins js" "length h = bins"
  shows "omp_private_worker data mn js bins h = Inr (tally data mn js h)"
  using assms by (simp add: omp_private_worker_def count_range_tally add_row_tally)

lemma omp_hist_histogram:
  assumes "length data = N a" "\<forall>x\<in>set data. minv a \<le> x \<and> x < minv a + int bins"
    and "N a < 9223372036854775808" "static_covers rt (N a) T"
    and "variant a = ''private'' \<or> variant a = ''atomic'' \<or> variant a = ''mutex''"
  shows "omp_hist rt a data T bins = Some (Inr (histogram_of data (minv a) bins))"
proof -
  let ?f = "rt_static rt (N a) T"
  have trip: "ll_trip (N a) = N a" using assms(3) by (simp add: ll_trip_def)
  have ib: "\<forall>t\<in>set [0..<T]. in_bins data (minv a) bins (?f t)"
    using assms(1,2) static_covers_below [OF assms(4)] by (auto intro!: in_bins_data)
  have "mset (concat (map ?f [0..<T])) = mset [0..<N a]"
    using assms(4) by (simp add: static_covers_def)
  then have "tally data (minv a) (concat (map ?f [0..<T])) (replicate bins 0) =
             tally data (minv a) [0..<N a] (replicate bins 0)"
    by (rule tally_mset)
  also have "\<dots> = histogram_of data (minv a) bins" using assms(1,2) by (rule tally_all_nth)
  finally have t: "tally data (minv a) (concat (map ?f [0..<T])) (replicate bins 0) =
                   histogram_of data (minv a) bins" .
  have p: "for_each (\<lambda>tid. omp_private_worker data (minv a) (?f tid) bins) [0..<T] (replicate bins 0) =
           Inr (tally data (minv a) (concat (map ?f [0..<T])) (replicate bins 0))"
    by (rule for_each_tally [where bins = bins]) (use ib in \<open>simp_all add: omp_private_worker_tally\<close>)
  have c: "for_each (\<lambda>tid. count_range data (minv a) (?f tid)) [0..<T] (replicate bins 0) =
           Inr (tally data (minv a) (concat (map ?f [0..<T])) (replicate bins 0))"
    by (rule for_each_tally [where bins = bins]) (use ib in \<open>simp_all add: count_range_tally\<close>)
  have m: "for_each (\<lambda>tid. count_locked data (minv a) (?f tid)) [0..<T]
             (replicate bins 0, replicate bins False) =
           Inr (tally data (minv a) (concat (map ?f [0..<T])) (replicate bins 0), replicate bins False)"
    by (rule for_each_locked) (use ib in simp_all)
  show ?thesis using assms(5) p c m unfolding omp_hist_def trip t by auto
qed

lemma omp_rep_ok:
  assumes "draws_in_range draw" "minv a \<le> maxv a" "bins = maxv a - minv a + 1"
    and "N a < 9223372036854775808" "static_covers rt (N a) (omp_team rt a)"
    and "variant a = ''private'' \<or> variant a = ''atomic'' \<or> variant a = ''mutex''"
  shows "\<exists>data. omp_gen draw rt a (omp_team rt a) r = Inr data \<and>
           length data = N a \<and> (\<forall>x\<in>set data. minv a \<le> x \<and> x \<le> maxv a) \<and>
           omp_rep draw rt a bins r =
             ([Generated data, Counted (histogram_of data (minv a) (nat bins)),
               Stdout (omp_row a (int (omp_team rt a)) bins)], Next)"
proof -
  from omp_gen_ok [OF assms(1,2,4,5)] obtain data where
    d: "omp_gen draw rt a (omp_team rt a) r = Inr data" "length data = N a"
       "\<forall>x\<in>set data. minv a \<le> x \<and> x \<le> maxv a"
    by blast
  have rng: "\<forall>x\<in>set data. minv a \<le> x \<and> x < minv a + int (nat bins)"
    using d(3) assms(2,3) by auto
  have h: "omp_hist rt a data (omp_team rt a) (nat bins) = Some (Inr (histogram_of data (minv a) (nat bins)))"
    using d(2) rng assms(4,5,6) by (rule omp_hist_histogram)
  have s: "accumulate (histogram_of data (minv a) (nat bins)) = N a"
    using d(2) rng assms(4) by (intro accumulate_histogram) simp_all
  have "omp_rep draw rt a bins r =
          ([Generated data, Counted (histogram_of data (minv a) (nat bins)),
            Stdout (omp_row a (int (omp_team rt a)) bins)], Next)"
    by (simp add: omp_rep_def d(1) h s finish_rep_def omp_row_def)
  with d show ?thesis by blast
qed

lemma seq_rep_ok:
  assumes "draws_in_range draw" "minv a \<le> maxv a" "bins = maxv a - minv a + 1"
    and "N a < 18446744073709551616"
  shows "\<exists>data. seq_gen draw a r = Inr data \<and>
           length data = N a \<and> (\<forall>x\<in>set data. minv a \<le> x \<and> x \<le> maxv a) \<and>
           seq_hist a data (nat bins) = Inr (histogram_of data (minv a) (nat bins)) \<and>
           seq_rep draw a bins r =
             ([Generated data, Counted (histogram_of data (minv a) (nat bins)),
               Stdout (seq_row a bins)], Next)"
proof -
  have g: "\<forall>k. minv a \<le> draw (u32 (seed a + r * 17)) (minv a) (maxv a) k \<and>
            draw (u32 (seed a + r * 17)) (minv a) (maxv a) k \<le> maxv a"
    using assms(1,2) by (simp add: draws_in_range_def)
  from fill_inv [of "\<lambda>x. minv a \<le> x \<and> x \<le> maxv a" _ "[0..<N a]" "replicate (N a) 0" 0, OF g]
  obtain data where d: "seq_gen draw a r = Inr data" "length data = N a"
    "\<forall>i<N a. minv a \<le> data ! i \<and> data ! i \<le> maxv a"
    unfolding seq_gen_def by auto
  have d3: "\<forall>x\<in>set data. minv a \<le> x \<and> x \<le> maxv a"
    using d(2,3) by (auto simp: in_set_conv_nth)
  have rng: "\<forall>x\<in>set data. minv a \<le> x \<and> x < minv a + int (nat bins)"
    using d3 assms(2,3) by auto
  have "in_bins data (minv a) (nat bins) [0..<N a]"
    using rng d(2) by (intro in_bins_data) simp_all
  then have "seq_hist a data (nat bins) = Inr (tally data (minv a) [0..<N a] (replicate (nat bins) 0))"
    by (simp add: seq_hist_def count_range_tally)
  then have h: "seq_hist a data (nat bins) = Inr (histogram_of data (minv a) (nat bins))"
    using tally_all_nth [OF d(2) rng] by simp
  have s: "accumulate (histogram_of data (minv a) (nat bins)) = N a"
    using d(2) rng assms(4) by (intro accumulate_histogram) simp_all
  have "seq_rep draw a bins r =
          ([Generated data, Counted (histogram_of data (minv a) (nat bins)), Stdout (seq_row a bins)], Next)"
    by (simp add: seq_rep_def d(1) h s finish_rep_def seq_row_def)
  with d(1,2) d3 h show ?thesis by blast
qed

section \<open>Whole runs\<close>

lemma projections_trace:
  "datasets (concat (map (\<lambda>r. [Generated (D r), Counted (H r), Stdout l]) rs)) = map D rs"
  "histograms (concat (map (\<lambda>r. [Generated (D r), Counted (H r), Stdout l]) rs)) = map H rs"
  "rows (concat (map (\<lambda>r. [Generated (D r), Counted (H r), Stdout l]) rs)) = map (\<lambda>r. l) rs"
  by (induction rs) simp_all

lemma trace_projections [simp]:
  "datasets (trace D H l k) = map D [0..<k]"
  "histograms (trace D H l k) = map H [0..<k]"
  "rows (trace D H l k) = replicate k l"
  by (simp_all add: trace_def projections_trace map_replicate_const)

lemma sum_histogram:
  assumes "length data = n" "\<forall>x\<in>set data. mn \<le> x \<and> x < mn + int bins"
  shows "sum_list (histogram_of data mn bins) = n"
proof -
  have "in_bins data mn bins [0..<n]" using assms by (intro in_bins_data) simp_all
  then have "sum_list (tally data mn [0..<n] (replicate bins 0)) = n"
    using tally_sum [of data mn "replicate bins 0" "[0..<n]"] by (simp add: sum_list_replicate)
  then show ?thesis using tally_all_nth [OF assms] by simp
qed

lemma threads_gen_cong:
  assumes "N a = N b" "seed a = seed b" "minv a = minv b" "maxv a = maxv b"
  shows "threads_gen draw a = threads_gen draw b"
  using assms by (simp add: threads_gen_def [abs_def] gen_worker_def [abs_def])

lemma threads_rep_cong:
  assumes "N a = N b" "seed a = seed b" "minv a = minv b" "maxv a = maxv b" "variant a = variant b"
  shows "threads_rep draw a = threads_rep draw b"
proof -
  have g: "threads_gen draw a = threads_gen draw b" using assms(1-4) by (rule threads_gen_cong)
  have h: "threads_hist a = threads_hist b" unfolding threads_hist_def [abs_def] assms(1,3,5) ..
  have f: "\<And>s v T. finish_rep s v T a = finish_rep s v T b"
    using assms by (simp add: finish_rep_def [abs_def])
  show ?thesis unfolding threads_rep_def [abs_def] g h f assms(1,5) ..
qed

lemma bins_of_normalise:
  assumes "bins_of (normalise a) = Inr bins"
  shows "bins = maxv (normalise a) - minv (normalise a) + 1" "1 \<le> bins" "bins \<le> INT_MAX"
  using bins_of_Inr [OF assms] normalise_ordered [of a] by simp_all

lemma team_bounds: "threads a \<le> INT_MAX \<Longrightarrow> 1 \<le> team a \<and> team a \<le> INT_MAX"
  by (simp add: team_def INT_MAX_def)

lemma threads_main_run:
  assumes "draws_in_range draw" "N a < 9223372036854775808" "threads a \<le> INT_MAX"
    and "bins_of (normalise a) = Inr bins"
    and "variant a = ''private'' \<or> variant a = ''atomic'' \<or> variant a = ''mutex''"
  shows "threads_main draw a =
           (trace (threads_data draw a)
              (\<lambda>r. histogram_of (threads_data draw a r) (minv (normalise a)) (nat bins))
              (threads_row (normalise a) (team a) bins) (nat (rep a)), Exit 0)"
    and "length (threads_data draw a r) = N a"
    and "\<forall>x\<in>set (threads_data draw a r). minv (normalise a) \<le> x \<and> x \<le> maxv (normalise a)"
proof -
  let ?b = "normalise a"
  let ?T = "team a"
  note B = bins_of_normalise [OF assms(4)]
  note T = team_bounds [OF assms(3)]
  have ok: "\<exists>data. threads_gen draw ?b (nat ?T) ((N ?b + nat ?T - 1) div nat ?T) r = Inr data \<and>
           length data = N ?b \<and> (\<forall>x\<in>set data. minv ?b \<le> x \<and> x \<le> maxv ?b) \<and>
           threads_hist ?b data ((N ?b + nat ?T - 1) div nat ?T) (nat ?T) (nat bins) =
             Inr (histogram_of data (minv ?b) (nat bins)) \<and>
           threads_rep draw ?b ?T bins r =
             ([Generated data, Counted (histogram_of data (minv ?b) (nat bins)),
               Stdout (threads_row ?b ?T bins)], Next)" for r
    by (rule threads_rep_ok) (use assms(1,2) B(1) T normalise_ordered in simp_all)
  have rep: "threads_rep draw ?b ?T bins r =
             ([Generated (threads_data draw a r),
               Counted (histogram_of (threads_data draw a r) (minv ?b) (nat bins)),
               Stdout (threads_row ?b ?T bins)], Next)" for r
    using ok [of r] by (auto simp: threads_data_def)
  show "length (threads_data draw a r) = N a"
    using ok [of r] by (auto simp: threads_data_def)
  show "\<forall>x\<in>set (threads_data draw a r). minv ?b \<le> x \<and> x \<le> maxv ?b"
    using ok [of r] by (auto simp: threads_data_def)
  have loop: "rep_loop (threads_rep draw ?b ?T bins) [0..<k] =
          (trace (threads_data draw a)
              (\<lambda>r. histogram_of (threads_data draw a r) (minv ?b) (nat bins))
              (threads_row ?b ?T bins) k, Exit 0)" for k
    using rep_loop_all_next [of "[0..<k]" "threads_rep draw ?b ?T bins"]
    by (simp add: rep trace_def)
  have c: "threads_rep draw (?b\<lparr>threads := 4\<rparr>) = threads_rep draw ?b"
    by (rule threads_rep_cong) simp_all
  show "threads_main draw a =
           (trace (threads_data draw a)
              (\<lambda>r. histogram_of (threads_data draw a r) (minv ?b) (nat bins))
              (threads_row ?b ?T bins) (nat (rep a)), Exit 0)"
    using assms(4,5) loop [of "nat (rep a)"]
    by (auto simp: threads_main_def Let_def c team_def)
qed

lemma omp_team_normalise [simp]: "omp_team rt (normalise a) = omp_team rt a"
  by (simp add: omp_team_def)

lemma omp_main_run:
  assumes "draws_in_range draw" "N a < 9223372036854775808"
    and "bins_of (normalise a) = Inr bins"
    and "variant a = ''private'' \<or> variant a = ''atomic'' \<or> variant a = ''mutex''"
    and "static_covers rt (N a) (omp_team rt a)"
  shows "omp_main draw rt a =
           (trace (omp_data draw rt a)
              (\<lambda>r. histogram_of (omp_data draw rt a r) (minv (normalise a)) (nat bins))
              (omp_row (normalise a) (int (omp_team rt a)) bins) (nat (rep a)), Exit 0)"
    and "length (omp_data draw rt a r) = N a"
    and "\<forall>x\<in>set (omp_data draw rt a r). minv (normalise a) \<le> x \<and> x \<le> maxv (normalise a)"
proof -
  let ?b = "normalise a"
  note B = bins_of_normalise [OF assms(3)]
  have ok: "\<exists>data. omp_gen draw rt ?b (omp_team rt ?b) r = Inr data \<and>
           length data = N ?b \<and> (\<forall>x\<in>set data. minv ?b \<le> x \<and> x \<le> maxv ?b) \<and>
           omp_rep draw rt ?b bins r =
             ([Generated data, Counted (histogram_of data (minv ?b) (nat bins)),
               Stdout (omp_row ?b (int (omp_team rt ?b)) bins)], Next)" for r
    by (rule omp_rep_ok) (use assms(1,2,4,5) B(1) normalise_ordered in simp_all)
  have rep: "omp_rep draw rt ?b bins r =
             ([Generated (omp_data draw rt a r),
               Counted (histogram_of (omp_data draw rt a r) (minv ?b) (nat bins)),
               Stdout (omp_row ?b (int (omp_team rt a)) bins)], Next)" for r
    using ok [of r] by (auto simp: omp_data_def)
  show "length (omp_data draw rt a r) = N a"
    using ok [of r] by (auto simp: omp_data_def)
  show "\<forall>x\<in>set (omp_data draw rt a r). minv ?b \<le> x \<and> x \<le> maxv ?b"
    using ok [of r] by (auto simp: omp_data_def)
  have loop: "rep_loop (omp_rep draw rt ?b bins) [0..<k] =
          (trace (omp_data draw rt a)
              (\<lambda>r. histogram_of (omp_data draw rt a r) (minv ?b) (nat bins))
              (omp_row ?b (int (omp_team rt a)) bins) k, Exit 0)" for k
    using rep_loop_all_next [of "[0..<k]" "omp_rep draw rt ?b bins"]
    by (simp add: rep trace_def)
  show "omp_main draw rt a =
           (trace (omp_data draw rt a)
              (\<lambda>r. histogram_of (omp_data draw rt a r) (minv ?b) (nat bins))
              (omp_row ?b (int (omp_team rt a)) bins) (nat (rep a)), Exit 0)"
    using assms(3) loop [of "nat (rep a)"] by (simp add: omp_main_def Let_def)
qed

lemma seq_main_run:
  assumes "draws_in_range draw" "N a < 18446744073709551616"
    and "bins_of (normalise a) = Inr bins"
  shows "seq_main draw a =
           (trace (seq_data draw a)
              (\<lambda>r. histogram_of (seq_data draw a r) (minv (normalise a)) (nat bins))
              (seq_row (normalise a) bins) (nat (rep a)), Exit 0)"
    and "length (seq_data draw a r) = N a"
    and "\<forall>x\<in>set (seq_data draw a r). minv (normalise a) \<le> x \<and> x \<le> maxv (normalise a)"
proof -
  let ?b = "normalise a"
  note B = bins_of_normalise [OF assms(3)]
  have ok: "\<exists>data. seq_gen draw ?b r = Inr data \<and>
           length data = N ?b \<and> (\<forall>x\<in>set data. minv ?b \<le> x \<and> x \<le> maxv ?b) \<and>
           seq_hist ?b data (nat bins) = Inr (histogram_of data (minv ?b) (nat bins)) \<and>
           seq_rep draw ?b bins r =
             ([Generated data, Counted (histogram_of data (minv ?b) (nat bins)),
               Stdout (seq_row ?b bins)], Next)" for r
    by (rule seq_rep_ok) (use assms(1,2) B(1) normalise_ordered in simp_all)
  have rep: "seq_rep draw ?b bins r =
             ([Generated (seq_data draw a r),
               Counted (histogram_of (seq_data draw a r) (minv ?b) (nat bins)),
               Stdout (seq_row ?b bins)], Next)" for r
    using ok [of r] by (auto simp: seq_data_def)
  show "length (seq_data draw a r) = N a"
    using ok [of r] by (auto simp: seq_data_def)
  show "\<forall>x\<in>set (seq_data draw a r). minv ?b \<le> x \<and> x \<le> maxv ?b"
    using ok [of r] by (auto simp: seq_data_def)
  have loop: "rep_loop (seq_rep draw ?b bins) [0..<k] =
          (trace (seq_data draw a)
              (\<lambda>r. histogram_of (seq_data draw a r) (minv ?b) (nat bins))
              (seq_row ?b bins) k, Exit 0)" for k
    using rep_loop_all_next [of "[0..<k]" "seq_rep draw ?b bins"]
    by (simp add: rep trace_def)
  show "seq_main draw a =
           (trace (seq_data draw a)
              (\<lambda>r. histogram_of (seq_data draw a r) (minv ?b) (nat bins))
              (seq_row ?b bins) (nat (rep a)), Exit 0)"
    using assms(3) loop [of "nat (rep a)"] by (simp add: seq_main_def Let_def)
qed

section \<open>Conservation\<close>

lemma replicate_numeral: "replicate (numeral k) x = x # replicate (pred_numeral k) x"
  by (simp add: numeral_eq_Suc)

lemma list_update_numeral: "(x # xs)[numeral k := y] = x # xs[pred_numeral k := y]"
  by (simp add: numeral_eq_Suc)

lemmas run_defs =
  threads_main_def normalise_def bins_of_def INT_MAX_def threads_rep_def chunk_of_def
  u64_of_int_def u64_def u32_def threads_gen_def gen_worker_def span_def start_of_def end_of_def
  worker_seed_def toy_draw_def threads_hist_def hist_atomic_def hist_private_def hist_mutex_def
  private_worker_def merge_local_def locked_bump_def bump_def bin_index_def
  finish_rep_def accumulate_def upt_rec replicate_numeral list_update_numeral
  seq_main_def seq_rep_def seq_gen_def seq_hist_def
  omp_main_def omp_rep_def omp_gen_def omp_gen_worker_def omp_hist_def omp_team_def ll_trip_def
  omp_private_worker_def gomp_def gomp_static_def unsupported_def

lemma toy_draw_in_range: "draws_in_range toy_draw"
proof -
  have "lo \<le> toy_draw s lo hi k \<and> toy_draw s lo hi k \<le> hi" if "lo \<le> hi" for s lo hi k
  proof -
    have "0 < nat (hi - lo + 1)" using that by simp
    then have "(s + 3 * k) mod nat (hi - lo + 1) < nat (hi - lo + 1)" by (rule mod_less_divisor)
    then have "int ((s + 3 * k) mod nat (hi - lo + 1)) < hi - lo + 1" using that by linarith
    then show ?thesis by (simp add: toy_draw_def)
  qed
  then show ?thesis by (simp add: draws_in_range_def)
qed

lemma histogram_sums:
  assumes "length data = n" "\<forall>x\<in>set data. mn \<le> x \<and> x \<le> mx" "bins = mx - mn + 1"
  shows "sum_list (histogram_of data mn (nat bins)) = n"
  by (rule sum_histogram) (use assms in auto)

lemma atomic_schedule_histogram:
  assumes "length data = n" "\<forall>x\<in>set data. mn \<le> x \<and> x < mn + int bins"
    and "mset (concat work) = mset [0..<n]"
    and "(atomic_step data mn)\<^sup>*\<^sup>* (work, replicate bins 0) (ws', h')" "atomic_done (ws', h')"
  shows "h' = histogram_of data mn bins"
proof -
  have "h' = tally data mn (concat work) (replicate bins 0)" using assms(4,5) by (rule atomic_final)
  also have "\<dots> = tally data mn [0..<n] (replicate bins 0)" using assms(3) by (rule tally_mset)
  also have "\<dots> = histogram_of data mn bins" using assms(1,2) by (rule tally_all_nth)
  finally show ?thesis .
qed

lemma mutex_schedule_histogram:
  assumes "length data = n" "\<forall>x\<in>set data. mn \<le> x \<and> x < mn + int bins"
    and "mset (concat work) = mset [0..<n]"
    and "(mutex_step data mn)\<^sup>*\<^sup>* (mutex_init work bins) (ws', h', m')" "mutex_done (ws', h', m')"
  shows "h' = histogram_of data mn bins"
proof -
  have "h' = tally data mn (concat work) (replicate bins 0)" using assms(4,5) by (rule mutex_final)
  also have "\<dots> = tally data mn [0..<n] (replicate bins 0)" using assms(3) by (rule tally_mset)
  also have "\<dots> = histogram_of data mn bins" using assms(1,2) by (rule tally_all_nth)
  finally show ?thesis .
qed

text \<open>
  C1 (conservation). For a run whose element count is a non-negative \<open>long long\<close>, whose
  number of bins fits an \<open>int\<close> and whose variant is one of the three, both backends exit
  with status 0 after \<open>rep\<close> repetitions, and the array counted in every repetition, as
  well as the \<open>sum_hist\<close> of every line, adds up to \<open>N\<close>. The same holds for the
  array at the end of every complete interleaved execution of the atomic and of the mutex
  variant, whatever the split of the indices among the workers.
\<close>

theorem conservation:
  assumes "draws_in_range draw" "N a < 9223372036854775808" "threads a \<le> INT_MAX"
    and "bins_of (normalise a) = Inr bins"
    and "variant a = ''private'' \<or> variant a = ''atomic'' \<or> variant a = ''mutex''"
    and "static_covers rt (N a) (omp_team rt a)"
  shows "(\<exists>evs. threads_main draw a = (evs, Exit 0) \<and> length (rows evs) = nat (rep a) \<and>
            (\<forall>l\<in>set (rows evs). c_sum_hist l = N a) \<and>
            length (histograms evs) = nat (rep a) \<and>
            (\<forall>h\<in>set (histograms evs). sum_list h = N a)) \<and>
         (\<exists>evs. omp_main draw rt a = (evs, Exit 0) \<and> length (rows evs) = nat (rep a) \<and>
            (\<forall>l\<in>set (rows evs). c_sum_hist l = N a) \<and>
            length (histograms evs) = nat (rep a) \<and>
            (\<forall>h\<in>set (histograms evs). sum_list h = N a)) \<and>
         (\<forall>data work ws' h'.
            length data = N a \<and>
            (\<forall>x\<in>set data. minv (normalise a) \<le> x \<and> x \<le> maxv (normalise a)) \<and>
            mset (concat work) = mset [0..<N a] \<and>
            (atomic_step data (minv (normalise a)))\<^sup>*\<^sup>* (work, replicate (nat bins) 0) (ws', h') \<and>
            atomic_done (ws', h') \<longrightarrow> sum_list h' = N a) \<and>
         (\<forall>data work ws' h' m'.
            length data = N a \<and>
            (\<forall>x\<in>set data. minv (normalise a) \<le> x \<and> x \<le> maxv (normalise a)) \<and>
            mset (concat work) = mset [0..<N a] \<and>
            (mutex_step data (minv (normalise a)))\<^sup>*\<^sup>* (mutex_init work (nat bins)) (ws', h', m') \<and>
            mutex_done (ws', h', m') \<longrightarrow> sum_list h' = N a)"
proof (intro conjI allI impI)
  note B = bins_of_normalise [OF assms(4)]
  let ?mn = "minv (normalise a)"
  have sums: "sum_list (histogram_of data ?mn (nat bins)) = N a"
    if "length data = N a" "\<forall>x\<in>set data. ?mn \<le> x \<and> x \<le> maxv (normalise a)" for data
    using that B(1) by (rule histogram_sums)
  note t = threads_main_run [OF assms(1-5)]
  show "\<exists>evs. threads_main draw a = (evs, Exit 0) \<and> length (rows evs) = nat (rep a) \<and>
            (\<forall>l\<in>set (rows evs). c_sum_hist l = N a) \<and>
            length (histograms evs) = nat (rep a) \<and>
            (\<forall>h\<in>set (histograms evs). sum_list h = N a)"
    unfolding t(1) using sums [OF t(2,3)] by (auto simp: threads_row_def)
  note p = omp_main_run [OF assms(1,2,4,5,6)]
  show "\<exists>evs. omp_main draw rt a = (evs, Exit 0) \<and> length (rows evs) = nat (rep a) \<and>
            (\<forall>l\<in>set (rows evs). c_sum_hist l = N a) \<and>
            length (histograms evs) = nat (rep a) \<and>
            (\<forall>h\<in>set (histograms evs). sum_list h = N a)"
    unfolding p(1) using sums [OF p(2,3)] by (auto simp: omp_row_def)
next
  fix data work ws' h'
  assume h: "length data = N a \<and>
            (\<forall>x\<in>set data. minv (normalise a) \<le> x \<and> x \<le> maxv (normalise a)) \<and>
            mset (concat work) = mset [0..<N a] \<and>
            (atomic_step data (minv (normalise a)))\<^sup>*\<^sup>* (work, replicate (nat bins) 0) (ws', h') \<and>
            atomic_done (ws', h')"
  note B = bins_of_normalise [OF assms(4)]
  have rng: "\<forall>x\<in>set data. minv (normalise a) \<le> x \<and> x < minv (normalise a) + int (nat bins)"
    using h B by auto
  have "h' = histogram_of data (minv (normalise a)) (nat bins)"
    by (rule atomic_schedule_histogram [where n = "N a" and work = work and ws' = ws'])
       (use h rng in simp_all)
  moreover have "sum_list (histogram_of data (minv (normalise a)) (nat bins)) = N a"
    by (rule histogram_sums [where mx = "maxv (normalise a)"]) (use h B(1) in simp_all)
  ultimately show "sum_list h' = N a" by simp
next
  fix data work ws' h' m'
  assume h: "length data = N a \<and>
            (\<forall>x\<in>set data. minv (normalise a) \<le> x \<and> x \<le> maxv (normalise a)) \<and>
            mset (concat work) = mset [0..<N a] \<and>
            (mutex_step data (minv (normalise a)))\<^sup>*\<^sup>* (mutex_init work (nat bins)) (ws', h', m') \<and>
            mutex_done (ws', h', m')"
  note B = bins_of_normalise [OF assms(4)]
  have rng: "\<forall>x\<in>set data. minv (normalise a) \<le> x \<and> x < minv (normalise a) + int (nat bins)"
    using h B by auto
  have "h' = histogram_of data (minv (normalise a)) (nat bins)"
    by (rule mutex_schedule_histogram [where n = "N a" and work = work and ws' = ws' and m' = m'])
       (use h rng in simp_all)
  moreover have "sum_list (histogram_of data (minv (normalise a)) (nat bins)) = N a"
    by (rule histogram_sums [where mx = "maxv (normalise a)"]) (use h B(1) in simp_all)
  ultimately show "sum_list h' = N a" by simp
qed

lemma atomic_demo_run:
  "(atomic_step [1, 3] 0)\<^sup>*\<^sup>* ([[0], [1]], [0, 0, 0, 0]) ([[], []], [0, 1, 0, 1])"
proof -
  have 1: "atomic_step [1, 3] 0 ([[0], [1]], [0, 0, 0, 0]) ([[0], []], [0, 0, 0, 1])"
    using atomic_step.incr [where t = 1 and ws = "[[0], [1]]" and i = 1 and js = "[]"
        and data = "[1, 3]" and mn = 0 and h = "[0, 0, 0, 0]" and h' = "[0, 0, 0, 1]"]
    by (simp add: bump_def bin_index_def list_update_numeral)
  have 2: "atomic_step [1, 3] 0 ([[0], []], [0, 0, 0, 1]) ([[], []], [0, 1, 0, 1])"
    using atomic_step.incr [where t = 0 and ws = "[[0], []]" and i = 0 and js = "[]"
        and data = "[1, 3]" and mn = 0 and h = "[0, 0, 0, 1]" and h' = "[0, 1, 0, 1]"]
    by (simp add: bump_def bin_index_def)
  from 1 2 show ?thesis by (meson converse_rtranclp_into_rtranclp rtranclp.rtrancl_refl)
qed

lemma mutex_demo_run:
  "(mutex_step [1, 3] 0)\<^sup>*\<^sup>* (mutex_init [[0], [1]] 4)
     ([([], Idle), ([], Idle)], [0, 1, 0, 1], [False, False, False, False])"
proof -
  let ?st = "mutex_step [1, 3] 0"
  let ?h0 = "[0, 0, 0, 0] :: nat list"
  have 1: "?st ([([0], Idle), ([1], Idle)], ?h0, [False, False, False, False])
               ([([0], Locked), ([1], Idle)], ?h0, [False, True, False, False])"
    using mutex_step.acquire [where t = 0 and ws = "[([0], Idle), ([1], Idle)]" and i = 0 and js = "[]" and m = "[False, False, False, False]"
        and b = 1 and data = "[1, 3]" and mn = 0 and h = ?h0]
    by (simp add: bin_index_def)
  have 2: "?st ([([0], Locked), ([1], Idle)], ?h0, [False, True, False, False])
               ([([0], Locked), ([1], Locked)], ?h0, [False, True, False, True])"
    using mutex_step.acquire [where t = 1 and ws = "[([0], Locked), ([1], Idle)]" and i = 1 and js = "[]" and m = "[False, True, False, False]"
        and b = 3 and data = "[1, 3]" and mn = 0 and h = ?h0]
    by (simp add: bin_index_def list_update_numeral)
  have 3: "?st ([([0], Locked), ([1], Locked)], ?h0, [False, True, False, True])
               ([([0], Loaded 0), ([1], Locked)], ?h0, [False, True, False, True])"
    using mutex_step.load [where t = 0 and ws = "[([0], Locked), ([1], Locked)]" and i = 0 and js = "[]" and data = "[1, 3]"
        and mn = 0 and h = ?h0 and b = 1 and m = "[False, True, False, True]"]
    by (simp add: bin_index_def)
  have 4: "?st ([([0], Loaded 0), ([1], Locked)], ?h0, [False, True, False, True])
               ([([0], Loaded 0), ([1], Loaded 0)], ?h0, [False, True, False, True])"
    using mutex_step.load [where t = 1 and ws = "[([0], Loaded 0), ([1], Locked)]" and i = 1 and js = "[]" and data = "[1, 3]"
        and mn = 0 and h = ?h0 and b = 3 and m = "[False, True, False, True]"]
    by (simp add: bin_index_def)
  have 5: "?st ([([0], Loaded 0), ([1], Loaded 0)], ?h0, [False, True, False, True])
               ([([0], Loaded 0), ([1], Stored)], [0, 0, 0, 1], [False, True, False, True])"
    using mutex_step.store [where t = 1 and ws = "[([0], Loaded 0), ([1], Loaded 0)]" and i = 1 and js = "[]" and v = 0
        and data = "[1, 3]" and mn = 0 and h = ?h0 and b = 3 and m = "[False, True, False, True]"]
    by (simp add: bin_index_def list_update_numeral)
  have 6: "?st ([([0], Loaded 0), ([1], Stored)], [0, 0, 0, 1], [False, True, False, True])
               ([([0], Stored), ([1], Stored)], [0, 1, 0, 1], [False, True, False, True])"
    using mutex_step.store [where t = 0 and ws = "[([0], Loaded 0), ([1], Stored)]" and i = 0 and js = "[]" and v = 0
        and data = "[1, 3]" and mn = 0 and h = "[0, 0, 0, 1]" and b = 1 and m = "[False, True, False, True]"]
    by (simp add: bin_index_def)
  have 7: "?st ([([0], Stored), ([1], Stored)], [0, 1, 0, 1], [False, True, False, True])
               ([([], Idle), ([1], Stored)], [0, 1, 0, 1], [False, False, False, True])"
    using mutex_step.release [where t = 0 and ws = "[([0], Stored), ([1], Stored)]" and i = 0 and js = "[]" and m = "[False, True, False, True]"
        and b = 1 and data = "[1, 3]" and mn = 0 and h = "[0, 1, 0, 1]"]
    by (simp add: bin_index_def)
  have 8: "?st ([([], Idle), ([1], Stored)], [0, 1, 0, 1], [False, False, False, True])
               ([([], Idle), ([], Idle)], [0, 1, 0, 1], [False, False, False, False])"
    using mutex_step.release [where t = 1 and ws = "[([], Idle), ([1], Stored)]" and i = 1 and js = "[]" and m = "[False, False, False, True]"
        and b = 3 and data = "[1, 3]" and mn = 0 and h = "[0, 1, 0, 1]"]
    by (simp add: bin_index_def list_update_numeral)
  have i: "mutex_init [[0], [1]] 4 = ([([0], Idle), ([1], Idle)], ?h0, [False, False, False, False])"
    by (simp add: mutex_init_def replicate_numeral)
  from 1 2 3 4 5 6 7 8 show ?thesis unfolding i
    by (meson converse_rtranclp_into_rtranclp rtranclp.rtrancl_refl)
qed

theorem conservation_witness:
  "draws_in_range toy_draw \<and>
   bins_of (normalise \<lparr>N = 2, minv = 0, maxv = 3, seed = 42, rep = 1, variant = ''atomic'', threads = 2\<rparr>) = Inr 4 \<and>
   static_covers (gomp 8) 2 2 \<and>
   (\<exists>evs. threads_main toy_draw
             \<lparr>N = 2, minv = 0, maxv = 3, seed = 42, rep = 1, variant = ''atomic'', threads = 2\<rparr> = (evs, Exit 0) \<and>
          length (rows evs) = 1 \<and> (\<forall>l\<in>set (rows evs). c_sum_hist l = 2) \<and>
          length (histograms evs) = 1 \<and> (\<forall>h\<in>set (histograms evs). sum_list h = 2)) \<and>
   (\<exists>evs. omp_main toy_draw (gomp 8)
             \<lparr>N = 2, minv = 0, maxv = 3, seed = 42, rep = 1, variant = ''atomic'', threads = 2\<rparr> = (evs, Exit 0) \<and>
          length (rows evs) = 1 \<and> (\<forall>l\<in>set (rows evs). c_sum_hist l = 2) \<and>
          length (histograms evs) = 1 \<and> (\<forall>h\<in>set (histograms evs). sum_list h = 2)) \<and>
   (atomic_step [1, 3] 0)\<^sup>*\<^sup>* ([[0], [1]], [0, 0, 0, 0]) ([[], []], [0, 1, 0, 1]) \<and>
   atomic_done ([[], []], [0, 1, 0, 1]) \<and>
   sum_list [0, 1, 0, 1] = (2::nat) \<and>
   (mutex_step [1, 3] 0)\<^sup>*\<^sup>* (mutex_init [[0], [1]] 4)
      ([([], Idle), ([], Idle)], [0, 1, 0, 1], [False, False, False, False]) \<and>
   mutex_done ([([], Idle), ([], Idle)], [0, 1, 0, 1], [False, False, False, False])"
proof -
  let ?a = "\<lparr>N = 2, minv = 0, maxv = 3, seed = 42, rep = 1, variant = ''atomic'', threads = 2\<rparr>"
  have b: "bins_of (normalise ?a) = Inr 4"
    by (simp add: bins_of_def normalise_def INT_MAX_def)
  have c: "static_covers (gomp 8) 2 2"
    by (simp add: static_covers_def gomp_def gomp_static_def upt_rec)
  have t: "omp_team (gomp 8) ?a = 2" by (simp add: omp_team_def gomp_def)
  have ad: "atomic_done ([[], []], [0, 1, 0, 1])" by (simp add: atomic_done_def)
  have md: "mutex_done ([([], Idle), ([], Idle)], [0, 1, 0, 1], [False, False, False, False])"
    by (simp add: mutex_done_def)
  note C = conservation [of toy_draw ?a 4 "gomp 8", OF toy_draw_in_range _ _ b]
  have full: "(\<exists>evs. threads_main toy_draw ?a = (evs, Exit 0) \<and> length (rows evs) = 1 \<and>
            (\<forall>l\<in>set (rows evs). c_sum_hist l = 2) \<and>
            length (histograms evs) = 1 \<and>
            (\<forall>h\<in>set (histograms evs). sum_list h = 2)) \<and>
         (\<exists>evs. omp_main toy_draw (gomp 8) ?a = (evs, Exit 0) \<and> length (rows evs) = 1 \<and>
            (\<forall>l\<in>set (rows evs). c_sum_hist l = 2) \<and>
            length (histograms evs) = 1 \<and>
            (\<forall>h\<in>set (histograms evs). sum_list h = 2)) \<and>
         (\<forall>data work ws' h'.
            length data = 2 \<and>
            (\<forall>x\<in>set data. minv (normalise ?a) \<le> x \<and> x \<le> maxv (normalise ?a)) \<and>
            mset (concat work) = mset [0..<2] \<and>
            (atomic_step data (minv (normalise ?a)))\<^sup>*\<^sup>* (work, replicate (nat 4) 0) (ws', h') \<and>
            atomic_done (ws', h') \<longrightarrow> sum_list h' = 2) \<and>
         (\<forall>data work ws' h' m'.
            length data = 2 \<and>
            (\<forall>x\<in>set data. minv (normalise ?a) \<le> x \<and> x \<le> maxv (normalise ?a)) \<and>
            mset (concat work) = mset [0..<2] \<and>
            (mutex_step data (minv (normalise ?a)))\<^sup>*\<^sup>* (mutex_init work (nat 4)) (ws', h', m') \<and>
            mutex_done (ws', h', m') \<longrightarrow> sum_list h' = 2)"
    using C c t by (simp add: INT_MAX_def)
  have mn: "minv (normalise ?a) = 0" "maxv (normalise ?a) = 3" by (simp_all add: normalise_def)
  have z: "replicate (nat 4) (0::nat) = [0, 0, 0, 0]" by (simp add: replicate_numeral)
  have w: "mset (concat [[0::nat], [1]]) = mset [0..<2]" by (simp add: upt_rec)
  from full have A: "sum_list [0, 1, 0, 1] = (2::nat)"
    using atomic_demo_run ad w unfolding mn z
    by (elim conjE) (drule spec [of _ "[1, 3]"], drule spec [of _ "[[0], [1]]"],
        drule spec [of _ "[[], []]"], drule spec [of _ "[0, 1, 0, 1]"], simp)
  from full show ?thesis using b c atomic_demo_run mutex_demo_run ad md toy_draw_in_range A
    by blast
qed

section \<open>Variant equivalence\<close>

lemma normalise_variant: "normalise (a\<lparr>variant := v\<rparr>) = (normalise a)\<lparr>variant := v\<rparr>"
  by (simp add: normalise_def)

lemma bins_of_variant: "bins_of (b\<lparr>variant := v\<rparr>) = bins_of b"
  by (simp add: bins_of_def)

lemma threads_data_variant: "threads_data draw (a\<lparr>variant := v\<rparr>) = threads_data draw a"
proof -
  have "threads_gen draw (normalise (a\<lparr>variant := v\<rparr>)) = threads_gen draw (normalise a)"
    by (rule threads_gen_cong) (simp_all add: normalise_variant)
  then show ?thesis by (simp add: threads_data_def [abs_def] team_def)
qed

lemma omp_gen_cong:
  assumes "N a = N b" "seed a = seed b" "minv a = minv b" "maxv a = maxv b"
  shows "omp_gen draw rt a = omp_gen draw rt b"
  using assms by (simp add: omp_gen_def [abs_def] omp_gen_worker_def [abs_def])

lemma omp_data_variant: "omp_data draw rt (a\<lparr>variant := v\<rparr>) = omp_data draw rt a"
proof -
  have "omp_gen draw rt (normalise (a\<lparr>variant := v\<rparr>)) = omp_gen draw rt (normalise a)"
    by (rule omp_gen_cong) (simp_all add: normalise_variant)
  then show ?thesis by (simp add: omp_data_def [abs_def] omp_team_def)
qed

lemma threads_variant_run:
  assumes "draws_in_range draw" "N a < 9223372036854775808" "threads a \<le> INT_MAX"
    and "bins_of (normalise a) = Inr bins"
    and "v = ''private'' \<or> v = ''atomic'' \<or> v = ''mutex''"
  shows "datasets (fst (threads_main draw (a\<lparr>variant := v\<rparr>))) = map (threads_data draw a) [0..<nat (rep a)]"
    and "histograms (fst (threads_main draw (a\<lparr>variant := v\<rparr>))) =
           map (\<lambda>r. histogram_of (threads_data draw a r) (minv (normalise a)) (nat bins)) [0..<nat (rep a)]"
proof -
  have b: "bins_of (normalise (a\<lparr>variant := v\<rparr>)) = Inr bins"
    using assms(4) unfolding normalise_variant bins_of_variant .
  have "threads_main draw (a\<lparr>variant := v\<rparr>) =
           (trace (threads_data draw a)
              (\<lambda>r. histogram_of (threads_data draw a r) (minv (normalise a)) (nat bins))
              (threads_row (normalise (a\<lparr>variant := v\<rparr>)) (team (a\<lparr>variant := v\<rparr>)) bins)
              (nat (rep a)), Exit 0)"
    using threads_main_run(1) [of draw "a\<lparr>variant := v\<rparr>" bins] assms(1,2,3,5) b
    by (simp add: threads_data_variant normalise_variant)
  then show "datasets (fst (threads_main draw (a\<lparr>variant := v\<rparr>))) = map (threads_data draw a) [0..<nat (rep a)]"
    and "histograms (fst (threads_main draw (a\<lparr>variant := v\<rparr>))) =
           map (\<lambda>r. histogram_of (threads_data draw a r) (minv (normalise a)) (nat bins)) [0..<nat (rep a)]"
    by simp_all
qed

lemma omp_variant_run:
  assumes "draws_in_range draw" "N a < 9223372036854775808"
    and "bins_of (normalise a) = Inr bins"
    and "v = ''private'' \<or> v = ''atomic'' \<or> v = ''mutex''"
    and "static_covers rt (N a) (omp_team rt a)"
  shows "datasets (fst (omp_main draw rt (a\<lparr>variant := v\<rparr>))) = map (omp_data draw rt a) [0..<nat (rep a)]"
    and "histograms (fst (omp_main draw rt (a\<lparr>variant := v\<rparr>))) =
           map (\<lambda>r. histogram_of (omp_data draw rt a r) (minv (normalise a)) (nat bins)) [0..<nat (rep a)]"
proof -
  have b: "bins_of (normalise (a\<lparr>variant := v\<rparr>)) = Inr bins"
    using assms(3) unfolding normalise_variant bins_of_variant .
  have t: "omp_team rt (a\<lparr>variant := v\<rparr>) = omp_team rt a" by (simp add: omp_team_def)
  have "omp_main draw rt (a\<lparr>variant := v\<rparr>) =
           (trace (omp_data draw rt a)
              (\<lambda>r. histogram_of (omp_data draw rt a r) (minv (normalise a)) (nat bins))
              (omp_row (normalise (a\<lparr>variant := v\<rparr>)) (int (omp_team rt a)) bins)
              (nat (rep a)), Exit 0)"
    using omp_main_run(1) [of draw "a\<lparr>variant := v\<rparr>" bins rt] assms(1,2,4,5) b
    by (simp add: omp_data_variant normalise_variant t)
  then show "datasets (fst (omp_main draw rt (a\<lparr>variant := v\<rparr>))) = map (omp_data draw rt a) [0..<nat (rep a)]"
    and "histograms (fst (omp_main draw rt (a\<lparr>variant := v\<rparr>))) =
           map (\<lambda>r. histogram_of (omp_data draw rt a r) (minv (normalise a)) (nat bins)) [0..<nat (rep a)]"
    by simp_all
qed

text \<open>
  C3 (variant equivalence). With everything but the variant fixed, the three variants of
  a backend work on the same datasets and count the same arrays, repetition by
  repetition: the array of each repetition is the histogram of its dataset. Every
  complete interleaved execution of the atomic and of the mutex variant ends in that same
  histogram, so the schedule changes nothing either.
\<close>

theorem variant_equivalence:
  assumes "draws_in_range draw" "N a < 9223372036854775808" "threads a \<le> INT_MAX"
    and "bins_of (normalise a) = Inr bins"
    and "static_covers rt (N a) (omp_team rt a)"
  shows "datasets (fst (threads_main draw (a\<lparr>variant := ''atomic''\<rparr>))) =
           datasets (fst (threads_main draw (a\<lparr>variant := ''private''\<rparr>))) \<and>
         datasets (fst (threads_main draw (a\<lparr>variant := ''mutex''\<rparr>))) =
           datasets (fst (threads_main draw (a\<lparr>variant := ''private''\<rparr>))) \<and>
         histograms (fst (threads_main draw (a\<lparr>variant := ''atomic''\<rparr>))) =
           histograms (fst (threads_main draw (a\<lparr>variant := ''private''\<rparr>))) \<and>
         histograms (fst (threads_main draw (a\<lparr>variant := ''mutex''\<rparr>))) =
           histograms (fst (threads_main draw (a\<lparr>variant := ''private''\<rparr>))) \<and>
         histograms (fst (threads_main draw (a\<lparr>variant := ''private''\<rparr>))) =
           map (\<lambda>d. histogram_of d (minv (normalise a)) (nat bins))
             (datasets (fst (threads_main draw (a\<lparr>variant := ''private''\<rparr>)))) \<and>
         length (histograms (fst (threads_main draw (a\<lparr>variant := ''private''\<rparr>)))) = nat (rep a) \<and>
         datasets (fst (omp_main draw rt (a\<lparr>variant := ''atomic''\<rparr>))) =
           datasets (fst (omp_main draw rt (a\<lparr>variant := ''private''\<rparr>))) \<and>
         datasets (fst (omp_main draw rt (a\<lparr>variant := ''mutex''\<rparr>))) =
           datasets (fst (omp_main draw rt (a\<lparr>variant := ''private''\<rparr>))) \<and>
         histograms (fst (omp_main draw rt (a\<lparr>variant := ''atomic''\<rparr>))) =
           histograms (fst (omp_main draw rt (a\<lparr>variant := ''private''\<rparr>))) \<and>
         histograms (fst (omp_main draw rt (a\<lparr>variant := ''mutex''\<rparr>))) =
           histograms (fst (omp_main draw rt (a\<lparr>variant := ''private''\<rparr>))) \<and>
         histograms (fst (omp_main draw rt (a\<lparr>variant := ''private''\<rparr>))) =
           map (\<lambda>d. histogram_of d (minv (normalise a)) (nat bins))
             (datasets (fst (omp_main draw rt (a\<lparr>variant := ''private''\<rparr>)))) \<and>
         length (histograms (fst (omp_main draw rt (a\<lparr>variant := ''private''\<rparr>)))) = nat (rep a) \<and>
         (\<forall>data work ws' h'.
            length data = N a \<and>
            (\<forall>x\<in>set data. minv (normalise a) \<le> x \<and> x \<le> maxv (normalise a)) \<and>
            mset (concat work) = mset [0..<N a] \<and>
            (atomic_step data (minv (normalise a)))\<^sup>*\<^sup>* (work, replicate (nat bins) 0) (ws', h') \<and>
            atomic_done (ws', h') \<longrightarrow> h' = histogram_of data (minv (normalise a)) (nat bins)) \<and>
         (\<forall>data work ws' h' m'.
            length data = N a \<and>
            (\<forall>x\<in>set data. minv (normalise a) \<le> x \<and> x \<le> maxv (normalise a)) \<and>
            mset (concat work) = mset [0..<N a] \<and>
            (mutex_step data (minv (normalise a)))\<^sup>*\<^sup>* (mutex_init work (nat bins)) (ws', h', m') \<and>
            mutex_done (ws', h', m') \<longrightarrow> h' = histogram_of data (minv (normalise a)) (nat bins))"
proof -
  note T = threads_variant_run [OF assms(1-4)]
  note P = omp_variant_run [OF assms(1,2,4) _ assms(5)]
  note B = bins_of_normalise [OF assms(4)]
  have rng: "\<forall>x\<in>set data. minv (normalise a) \<le> x \<and> x < minv (normalise a) + int (nat bins)"
    if "\<forall>x\<in>set data. minv (normalise a) \<le> x \<and> x \<le> maxv (normalise a)" for data
    using that B by auto
  have A: "h' = histogram_of data (minv (normalise a)) (nat bins)"
    if "length data = N a \<and>
            (\<forall>x\<in>set data. minv (normalise a) \<le> x \<and> x \<le> maxv (normalise a)) \<and>
            mset (concat work) = mset [0..<N a] \<and>
            (atomic_step data (minv (normalise a)))\<^sup>*\<^sup>* (work, replicate (nat bins) 0) (ws', h') \<and>
            atomic_done (ws', h')" for data work ws' h'
  proof -
    from that have f: "length data = N a"
      "\<forall>x\<in>set data. minv (normalise a) \<le> x \<and> x \<le> maxv (normalise a)"
      "mset (concat work) = mset [0..<N a]"
      "(atomic_step data (minv (normalise a)))\<^sup>*\<^sup>* (work, replicate (nat bins) 0) (ws', h')"
      "atomic_done (ws', h')" by blast+
    show ?thesis by (rule atomic_schedule_histogram [OF f(1) rng [OF f(2)] f(3,4,5)])
  qed
  have M: "h' = histogram_of data (minv (normalise a)) (nat bins)"
    if "length data = N a \<and>
            (\<forall>x\<in>set data. minv (normalise a) \<le> x \<and> x \<le> maxv (normalise a)) \<and>
            mset (concat work) = mset [0..<N a] \<and>
            (mutex_step data (minv (normalise a)))\<^sup>*\<^sup>* (mutex_init work (nat bins)) (ws', h', m') \<and>
            mutex_done (ws', h', m')" for data work ws' h' m'
  proof -
    from that have f: "length data = N a"
      "\<forall>x\<in>set data. minv (normalise a) \<le> x \<and> x \<le> maxv (normalise a)"
      "mset (concat work) = mset [0..<N a]"
      "(mutex_step data (minv (normalise a)))\<^sup>*\<^sup>* (mutex_init work (nat bins)) (ws', h', m')"
      "mutex_done (ws', h', m')" by blast+
    show ?thesis by (rule mutex_schedule_histogram [OF f(1) rng [OF f(2)] f(3,4,5)])
  qed
  show ?thesis
    unfolding T [of "''private''", simplified] T [of "''atomic''", simplified] T [of "''mutex''", simplified]
      P [of "''private''", simplified] P [of "''atomic''", simplified] P [of "''mutex''", simplified]
    using A M by (simp add: comp_def) blast
qed

theorem variant_equivalence_witness:
  "draws_in_range toy_draw \<and>
   bins_of (normalise \<lparr>N = 2, minv = 0, maxv = 3, seed = 42, rep = 1, variant = ''atomic'', threads = 2\<rparr>) = Inr 4 \<and>
   static_covers (gomp 8) 2 2 \<and>
   histograms (fst (threads_main toy_draw
      (\<lparr>N = 2, minv = 0, maxv = 3, seed = 42, rep = 1, variant = ''atomic'', threads = 2\<rparr>\<lparr>variant := ''atomic''\<rparr>))) =
   histograms (fst (threads_main toy_draw
      (\<lparr>N = 2, minv = 0, maxv = 3, seed = 42, rep = 1, variant = ''atomic'', threads = 2\<rparr>\<lparr>variant := ''private''\<rparr>))) \<and>
   histograms (fst (threads_main toy_draw
      (\<lparr>N = 2, minv = 0, maxv = 3, seed = 42, rep = 1, variant = ''atomic'', threads = 2\<rparr>\<lparr>variant := ''mutex''\<rparr>))) =
   histograms (fst (threads_main toy_draw
      (\<lparr>N = 2, minv = 0, maxv = 3, seed = 42, rep = 1, variant = ''atomic'', threads = 2\<rparr>\<lparr>variant := ''private''\<rparr>))) \<and>
   length (histograms (fst (threads_main toy_draw
      (\<lparr>N = 2, minv = 0, maxv = 3, seed = 42, rep = 1, variant = ''atomic'', threads = 2\<rparr>\<lparr>variant := ''private''\<rparr>)))) = 1 \<and>
   histograms (fst (omp_main toy_draw (gomp 8)
      (\<lparr>N = 2, minv = 0, maxv = 3, seed = 42, rep = 1, variant = ''atomic'', threads = 2\<rparr>\<lparr>variant := ''atomic''\<rparr>))) =
   histograms (fst (omp_main toy_draw (gomp 8)
      (\<lparr>N = 2, minv = 0, maxv = 3, seed = 42, rep = 1, variant = ''atomic'', threads = 2\<rparr>\<lparr>variant := ''private''\<rparr>))) \<and>
   histograms (fst (omp_main toy_draw (gomp 8)
      (\<lparr>N = 2, minv = 0, maxv = 3, seed = 42, rep = 1, variant = ''atomic'', threads = 2\<rparr>\<lparr>variant := ''mutex''\<rparr>))) =
   histograms (fst (omp_main toy_draw (gomp 8)
      (\<lparr>N = 2, minv = 0, maxv = 3, seed = 42, rep = 1, variant = ''atomic'', threads = 2\<rparr>\<lparr>variant := ''private''\<rparr>))) \<and>
   (atomic_step [1, 3] 0)\<^sup>*\<^sup>* ([[0], [1]], [0, 0, 0, 0]) ([[], []], [0, 1, 0, 1]) \<and>
   atomic_done ([[], []], [0, 1, 0, 1]) \<and>
   (mutex_step [1, 3] 0)\<^sup>*\<^sup>* (mutex_init [[0], [1]] 4)
      ([([], Idle), ([], Idle)], [0, 1, 0, 1], [False, False, False, False]) \<and>
   mutex_done ([([], Idle), ([], Idle)], [0, 1, 0, 1], [False, False, False, False]) \<and>
   [0, 1, 0, 1] = histogram_of [1, 3] 0 4"
proof -
  let ?a = "\<lparr>N = 2, minv = 0, maxv = 3, seed = 42, rep = 1, variant = ''atomic'', threads = 2\<rparr>"
  have b: "bins_of (normalise ?a) = Inr 4"
    by (simp add: bins_of_def normalise_def INT_MAX_def)
  have c: "static_covers (gomp 8) 2 2"
    by (simp add: static_covers_def gomp_def gomp_static_def upt_rec)
  have t: "omp_team (gomp 8) ?a = 2" by (simp add: omp_team_def gomp_def)
  have ad: "atomic_done ([[], []], [0, 1, 0, 1])" by (simp add: atomic_done_def)
  have md: "mutex_done ([([], Idle), ([], Idle)], [0, 1, 0, 1], [False, False, False, False])"
    by (simp add: mutex_done_def)
  have mn: "minv (normalise ?a) = 0" "maxv (normalise ?a) = 3" by (simp_all add: normalise_def)
  have z: "replicate (nat 4) (0::nat) = [0, 0, 0, 0]" by (simp add: replicate_numeral)
  have w: "mset (concat [[0::nat], [1]]) = mset [0..<2]" by (simp add: upt_rec)
  have n: "N ?a = 2" "rep ?a = 1" by simp_all
  have h1: "N ?a < 9223372036854775808" "threads ?a \<le> INT_MAX" by (simp_all add: INT_MAX_def)
  have h2: "static_covers (gomp 8) (N ?a) (omp_team (gomp 8) ?a)" unfolding t n by (rule c)
  note V = variant_equivalence [OF toy_draw_in_range h1 b h2, unfolded mn n z]
  note Vat = V [THEN conjunct2, THEN conjunct2, THEN conjunct2, THEN conjunct2, THEN conjunct2,
      THEN conjunct2, THEN conjunct2, THEN conjunct2, THEN conjunct2, THEN conjunct2,
      THEN conjunct2, THEN conjunct2, THEN conjunct1, rule_format,
      of "[1, 3]" "[[0], [1]]" "[[], []]" "[0, 1, 0, 1]"]
  have A: "[0, 1, 0, 1] = histogram_of [1, 3] 0 (nat 4)"
    by (rule Vat) (use atomic_demo_run ad w in simp)
  note c3 = V [THEN conjunct2, THEN conjunct2, THEN conjunct1]
  note c4 = V [THEN conjunct2, THEN conjunct2, THEN conjunct2, THEN conjunct1]
  note c6 = V [THEN conjunct2, THEN conjunct2, THEN conjunct2, THEN conjunct2, THEN conjunct2,
      THEN conjunct1]
  note c9 = V [THEN conjunct2, THEN conjunct2, THEN conjunct2, THEN conjunct2, THEN conjunct2,
      THEN conjunct2, THEN conjunct2, THEN conjunct2, THEN conjunct1]
  note c10 = V [THEN conjunct2, THEN conjunct2, THEN conjunct2, THEN conjunct2, THEN conjunct2,
      THEN conjunct2, THEN conjunct2, THEN conjunct2, THEN conjunct2, THEN conjunct1]
  show ?thesis
    using c3 c4 c6 c9 c10 A b c atomic_demo_run mutex_demo_run ad md toy_draw_in_range
    by simp
qed

section \<open>The partition as the workers see it\<close>

lemma span_plain:
  assumes "(t + 1) * chunk < 18446744073709551616"
  shows "span n chunk t = [t * chunk ..< min n ((t + 1) * chunk)]"
proof -
  have "t * chunk \<le> (t + 1) * chunk" by simp
  then have "t * chunk < 18446744073709551616" using assms by linarith
  then show ?thesis using assms by (simp add: span_def start_of_def end_of_def u64_id del: mult_Suc)
qed

text \<open>
  C7, as amended. With \<open>chunk = ceil(N / T)\<close>, worker \<open>t\<close> runs the indices from
  \<open>t * chunk\<close> up to \<open>min N ((t + 1) * chunk)\<close>, none when \<open>t * chunk\<close> is not below
  \<open>N\<close>. In worker order these are the indices \<open>0 .. N - 1\<close>, each once; two workers
  share none. A worker whose range ends at or before \<open>N\<close> gets \<open>chunk\<close> indices, no
  worker gets more, and after a worker that gets fewer every worker gets none.
\<close>

theorem partition_cover:
  assumes "0 < T" "n + T \<le> 18446744073709551616" "chunk_of n T = Inr chunk"
  shows "chunk = (n + T - 1) div T \<and> n \<le> T * chunk \<and> T * chunk < n + T \<and>
         (\<forall>t<T. span n chunk t = [t * chunk ..< min n ((t + 1) * chunk)]) \<and>
         concat (map (span n chunk) [0..<T]) = [0..<n] \<and>
         (\<forall>t<T. \<forall>u<T. t \<noteq> u \<longrightarrow> set (span n chunk t) \<inter> set (span n chunk u) = {}) \<and>
         (\<forall>t<T. (t + 1) * chunk \<le> n \<longrightarrow> length (span n chunk t) = chunk) \<and>
         (\<forall>t<T. length (span n chunk t) \<le> chunk) \<and>
         (\<forall>t<T. \<forall>u<T. t < u \<and> length (span n chunk t) < chunk \<longrightarrow> span n chunk u = [])"
proof -
  have "u64 (n + T - 1) = n + T - 1" using assms(1,2) by (intro u64_id) simp
  then have c: "chunk = (n + T - 1) div T" using assms(1,3) by (simp add: chunk_of_def)
  have ge: "n \<le> T * chunk" unfolding c using assms(1) by (rule ceil_mult_ge)
  have le: "T * chunk \<le> n + T - 1" unfolding c using assms(1) by (rule ceil_mult_le)
  have nw: "(t + 1) * chunk < 18446744073709551616" if "t < T" for t
  proof -
    have "(t + 1) * chunk \<le> T * chunk" using that by (intro mult_right_mono) simp_all
    with le assms show ?thesis by linarith
  qed
  have sp: "span n chunk t = [t * chunk ..< min n ((t + 1) * chunk)]" if "t < T" for t
    using nw [OF that] by (rule span_plain)
  have cover: "concat (map (span n chunk) [0..<T]) = [0..<n]"
    unfolding c using assms(1,2) by (rule spans_cover)
  have disj: "set (span n chunk t) \<inter> set (span n chunk u) = {}" if "t < u" "u < T" for t u
  proof -
    have "(t + 1) * chunk \<le> u * chunk" using that by (intro mult_right_mono) simp_all
    then show ?thesis using sp [of t] sp [of u] that by auto
  qed
  have disj2: "set (span n chunk t) \<inter> set (span n chunk u) = {}" if "t < T" "u < T" "t \<noteq> u" for t u
  proof (cases "t < u")
    case True
    then show ?thesis using disj that by simp
  next
    case False
    then have "u < t" using that by simp
    then have "set (span n chunk u) \<inter> set (span n chunk t) = {}" using disj that by simp
    then show ?thesis by blast
  qed
  have full: "length (span n chunk t) = chunk" if "t < T" "(t + 1) * chunk \<le> n" for t
    using sp [OF that(1)] that(2) by (simp add: min_absorb2)
  have atmost: "length (span n chunk t) \<le> chunk" if "t < T" for t
  proof -
    have "min n ((t + 1) * chunk) - t * chunk \<le> chunk" by (simp add: min_def) linarith
    then show ?thesis using sp [OF that] by simp
  qed
  have rest: "span n chunk u = []" if "t < u" "u < T" "length (span n chunk t) < chunk" for t u
  proof -
    have t: "t < T" using that by simp
    have "n < (t + 1) * chunk"
    proof (rule ccontr)
      assume "\<not> n < (t + 1) * chunk"
      then have "length (span n chunk t) = chunk" using full [OF t] by simp
      with that(3) show False by simp
    qed
    moreover have "(t + 1) * chunk \<le> u * chunk" using that by (intro mult_right_mono) simp_all
    ultimately show ?thesis using sp [OF that(2)] by simp
  qed
  have lt: "T * chunk < n + T" using le assms(1) by linarith
  show ?thesis using c ge lt sp cover disj2 full atmost rest by blast
qed

theorem partition_cover_witness:
  "(0::nat) < 4 \<and> (5::nat) + 4 \<le> 18446744073709551616 \<and> chunk_of 5 4 = Inr 2 \<and>
   concat (map (span 5 2) [0..<4]) = [0..<5] \<and>
   set (span 5 2 1) \<inter> set (span 5 2 2) = {} \<and>
   length (span 5 2 1) = 2 \<and> length (span 5 2 2) \<le> 2 \<and> span 5 2 3 = []"
proof -
  have c: "chunk_of 5 4 = Inr 2" by (simp add: chunk_of_def u64_def)
  have l: "length (span 5 2 2) < 2" by (simp add: span_def start_of_def end_of_def u64_def)
  note P = partition_cover [of 4 5 2, OF _ _ c]
  have "(0::nat) < 4" "(5::nat) + 4 \<le> 18446744073709551616" by simp_all
  from P [OF this] have
    1: "concat (map (span 5 2) [0..<4]) = [0..<5]" and
    2: "\<forall>t<4. \<forall>u<4. t \<noteq> u \<longrightarrow> set (span 5 2 t) \<inter> set (span 5 2 u) = {}" and
    3: "\<forall>t<4. (t + 1) * 2 \<le> (5::nat) \<longrightarrow> length (span 5 2 t) = 2" and
    4: "\<forall>t<4. length (span 5 2 t) \<le> 2" and
    5: "\<forall>t<4. \<forall>u<4. t < u \<and> length (span 5 2 t) < 2 \<longrightarrow> span 5 2 u = []"
    by blast+
  have "set (span 5 2 1) \<inter> set (span 5 2 2) = {}" using 2 [rule_format, of 1 2] by simp
  moreover have "length (span 5 2 1) = 2" using 3 [rule_format, of 1] by simp
  moreover have "length (span 5 2 2) \<le> 2" using 4 [rule_format, of 2] by simp
  moreover have "span 5 2 3 = []" using 5 [rule_format, of 2 3] l by simp
  ultimately show ?thesis using c 1 by simp
qed

theorem partition_short_worker_counterexample:
  "chunk_of 5 4 = Inr 2 \<and>
   map (span 5 2) [0..<4] = [[0, 1], [2, 3], [4], []] \<and>
   length (span 5 2 2) < 2 \<and> (2::nat) < 4 - 1 \<and>
   map (\<lambda>t. (start_of 2 t, end_of 5 2 t)) [0..<4] = [(0, 2), (2, 4), (4, 5), (6, 5)]"
  by (simp add: chunk_of_def span_def start_of_def end_of_def u64_def upt_rec)

section \<open>More workers than elements\<close>

lemma histogram_of_Nil: "histogram_of [] mn bins = replicate bins 0"
  by (simp add: histogram_of_def map_replicate_const)

lemma length_histogram_of [simp]: "length (histogram_of data mn bins) = bins"
  by (simp add: histogram_of_def)

text \<open>
  C8 (degenerate partition). With more workers than elements, \<open>chunk\<close> is computed
  without a division by zero (it is 1, or 0 when there is no element), every worker
  from index \<open>N\<close> on has an empty range and neither writes the dataset nor touches a
  counter, and the run ends with status 0: every repetition counts an array of
  \<open>max - min + 1\<close> bins that sum to \<open>N\<close>, all zero when \<open>N = 0\<close>.
\<close>

theorem degenerate_partition:
  assumes "draws_in_range draw" "threads a \<le> INT_MAX"
    and "bins_of (normalise a) = Inr bins"
    and "variant a = ''private'' \<or> variant a = ''atomic'' \<or> variant a = ''mutex''"
    and "N a < nat (team a)"
  shows "chunk_of (N a) (u64_of_int (team a)) = Inr (if N a = 0 then 0 else 1) \<and>
         (\<forall>t<nat (team a). N a \<le> t \<longrightarrow>
            span (N a) (if N a = 0 then 0 else 1) t = [] \<and>
            (\<forall>r data. gen_worker draw (normalise a) r (if N a = 0 then 0 else 1) t data = Inr data) \<and>
            (\<forall>data h. count_range data (minv (normalise a))
                         (span (N a) (if N a = 0 then 0 else 1) t) h = Inr h)) \<and>
         (\<exists>evs. threads_main draw a = (evs, Exit 0) \<and>
            length (rows evs) = nat (rep a) \<and>
            (\<forall>l\<in>set (rows evs). c_sum_hist l = N a \<and> c_N l = N a \<and>
               c_bins l = maxv (normalise a) - minv (normalise a) + 1) \<and>
            length (histograms evs) = nat (rep a) \<and>
            (\<forall>h\<in>set (histograms evs). length h = nat bins \<and> sum_list h = N a) \<and>
            (N a = 0 \<longrightarrow> histograms evs = replicate (nat (rep a)) (replicate (nat bins) 0)))"
proof -
  let ?T = "nat (team a)"
  let ?c = "if N a = 0 then 0 else 1 :: nat"
  note T = team_bounds [OF assms(2)]
  note B = bins_of_normalise [OF assms(3)]
  have Tn: "nat (team a) \<le> 2147483647" using T unfolding INT_MAX_def by linarith
  then have n: "N a < 9223372036854775808" using assms(5) by linarith
  have "(N a + ?T - 1) div ?T = ?c"
  proof (cases "N a = 0")
    case True
    then show ?thesis using T by simp
  next
    case False
    have "N a + ?T - 1 = 1 * ?T + (N a - 1)" using False by simp
    moreover have "N a - 1 < ?T" using assms(5) by simp
    ultimately have "(N a + ?T - 1) div ?T = 1"
      by (metis (no_types, lifting) add.commute div_mult_self1 div_less add_cancel_right_left
          less_nat_zero_code mult.commute)
    then show ?thesis using False by simp
  qed
  with chunk_of_ok [OF T [THEN conjunct1] T [THEN conjunct2] n] have c: "chunk_of (N a) (u64_of_int (team a)) = Inr ?c" by simp
  have e: "span (N a) ?c t = []" if "N a \<le> t" "t < ?T" for t
  proof -
    have "t + 1 < 18446744073709551616" using that Tn by linarith
    then have "(t + 1) * ?c < 18446744073709551616" by simp
    from span_plain [OF this] that show ?thesis by simp
  qed
  have w: "\<forall>t<?T. N a \<le> t \<longrightarrow>
            span (N a) ?c t = [] \<and>
            (\<forall>r data. gen_worker draw (normalise a) r ?c t data = Inr data) \<and>
            (\<forall>data h. count_range data (minv (normalise a)) (span (N a) ?c t) h = Inr h)"
    using e by (simp add: gen_worker_def)
  note R = threads_main_run [OF assms(1) n assms(2,3,4)]
  have s: "sum_list (histogram_of (threads_data draw a r) (minv (normalise a)) (nat bins)) = N a" for r
    using R(2,3) [of r] B(1) by (rule histogram_sums)
  have z: "histogram_of (threads_data draw a r) (minv (normalise a)) (nat bins) = replicate (nat bins) 0"
    if "N a = 0" for r
    using R(2) [of r] that by (simp add: histogram_of_Nil)
  have "\<exists>evs. threads_main draw a = (evs, Exit 0) \<and>
            length (rows evs) = nat (rep a) \<and>
            (\<forall>l\<in>set (rows evs). c_sum_hist l = N a \<and> c_N l = N a \<and>
               c_bins l = maxv (normalise a) - minv (normalise a) + 1) \<and>
            length (histograms evs) = nat (rep a) \<and>
            (\<forall>h\<in>set (histograms evs). length h = nat bins \<and> sum_list h = N a) \<and>
            (N a = 0 \<longrightarrow> histograms evs = replicate (nat (rep a)) (replicate (nat bins) 0))"
    unfolding R(1) using s z B(1) by (auto simp: threads_row_def map_replicate_const)
  with c w show ?thesis by blast
qed

theorem degenerate_partition_witness:
  "draws_in_range toy_draw \<and>
   bins_of (normalise \<lparr>N = 3, minv = 0, maxv = 9, seed = 42, rep = 1, variant = ''private'', threads = 8\<rparr>) = Inr 10 \<and>
   N \<lparr>N = 3, minv = 0, maxv = 9, seed = 42, rep = 1, variant = ''private'', threads = 8\<rparr>
     < nat (team \<lparr>N = 3, minv = 0, maxv = 9, seed = 42, rep = 1, variant = ''private'', threads = 8\<rparr>) \<and>
   chunk_of 3 (u64_of_int 8) = Inr 1 \<and>
   span 3 1 5 = [] \<and>
   (\<exists>evs. threads_main toy_draw
             \<lparr>N = 3, minv = 0, maxv = 9, seed = 42, rep = 1, variant = ''private'', threads = 8\<rparr> = (evs, Exit 0) \<and>
          length (rows evs) = 1 \<and>
          (\<forall>l\<in>set (rows evs). c_sum_hist l = 3 \<and> c_N l = 3 \<and> c_bins l = 10) \<and>
          length (histograms evs) = 1 \<and>
          (\<forall>h\<in>set (histograms evs). length h = 10 \<and> sum_list h = 3)) \<and>
   (\<exists>evs. threads_main toy_draw
             \<lparr>N = 0, minv = 0, maxv = 9, seed = 42, rep = 2, variant = ''mutex'', threads = 8\<rparr> = (evs, Exit 0) \<and>
          (\<forall>l\<in>set (rows evs). c_sum_hist l = 0 \<and> c_N l = 0 \<and> c_bins l = 10) \<and>
          histograms evs = [[0, 0, 0, 0, 0, 0, 0, 0, 0, 0], [0, 0, 0, 0, 0, 0, 0, 0, 0, 0]])"
proof -
  let ?a = "\<lparr>N = 3, minv = 0, maxv = 9, seed = 42, rep = 1, variant = ''private'', threads = 8\<rparr>"
  let ?z = "\<lparr>N = 0, minv = 0, maxv = 9, seed = 42, rep = 2, variant = ''mutex'', threads = 8\<rparr>"
  have b: "bins_of (normalise ?a) = Inr 10" "bins_of (normalise ?z) = Inr 10"
    by (simp_all add: bins_of_def normalise_def INT_MAX_def)
  have n: "N ?a < nat (team ?a)" "N ?z < nat (team ?z)" by (simp_all add: team_def)
  have t: "threads ?a \<le> INT_MAX" "threads ?z \<le> INT_MAX" by (simp_all add: INT_MAX_def)
  have mn: "minv (normalise ?a) = 0" "maxv (normalise ?a) = 9"
    "minv (normalise ?z) = 0" "maxv (normalise ?z) = 9" by (simp_all add: normalise_def)
  have tm: "team ?a = 8" "team ?z = 8" by (simp_all add: team_def)
  have r2: "replicate (nat 2) (replicate (nat 10) (0::nat)) =
              [[0, 0, 0, 0, 0, 0, 0, 0, 0, 0], [0, 0, 0, 0, 0, 0, 0, 0, 0, 0]]"
    by (simp add: replicate_numeral)
  note A = degenerate_partition [OF toy_draw_in_range t(1) b(1) _ n(1), unfolded mn tm, simplified]
  note Z = degenerate_partition [OF toy_draw_in_range t(2) b(2) _ n(2), unfolded mn tm, simplified]
  have s: "span 3 1 5 = []" using A [THEN conjunct2, THEN conjunct1, rule_format, of 5] by simp
  from A have c: "chunk_of 3 (u64_of_int 8) = Inr 1" by simp
  from A have ea: "\<exists>evs. threads_main toy_draw ?a = (evs, Exit 0) \<and>
          length (rows evs) = 1 \<and>
          (\<forall>l\<in>set (rows evs). c_sum_hist l = 3 \<and> c_N l = 3 \<and> c_bins l = 10) \<and>
          length (histograms evs) = 1 \<and>
          (\<forall>h\<in>set (histograms evs). length h = 10 \<and> sum_list h = 3)"
    by simp
  from Z have ez: "\<exists>evs. threads_main toy_draw ?z = (evs, Exit 0) \<and>
          (\<forall>l\<in>set (rows evs). c_sum_hist l = 0 \<and> c_N l = 0 \<and> c_bins l = 10) \<and>
          histograms evs = [[0, 0, 0, 0, 0, 0, 0, 0, 0, 0], [0, 0, 0, 0, 0, 0, 0, 0, 0, 0]]"
    using r2 by auto
  show ?thesis using toy_draw_in_range b(1) n(1) c s ea ez by blast
qed

section \<open>Range normalization\<close>

lemma rows_append [simp]: "rows (xs @ ys) = rows xs @ rows ys"
  by (induction xs rule: rows.induct) simp_all

lemma histograms_append [simp]: "histograms (xs @ ys) = histograms xs @ histograms ys"
  by (induction xs rule: histograms.induct) simp_all

lemma datasets_append [simp]: "datasets (xs @ ys) = datasets xs @ datasets ys"
  by (induction xs rule: datasets.induct) simp_all

lemma rows_rep_loop:
  assumes "\<And>r. r \<in> set rs \<Longrightarrow> map f (rows (fst (body r))) = replicate (length (rows (fst (body r)))) v"
  shows "map f (rows (fst (rep_loop body rs))) = replicate (length (rows (fst (rep_loop body rs)))) v"
  using assms
proof (induction rs)
  case Nil
  then show ?case by simp
next
  case (Cons r rs)
  obtain ev c where b: "body r = (ev, c)" by (cases "body r")
  have r: "map f (rows ev) = replicate (length (rows ev)) v" using Cons.prems [of r] b by simp
  show ?case
  proof (cases c)
    case Next
    obtain ev' out where l: "rep_loop body rs = (ev', out)" by (cases "rep_loop body rs")
    have "map f (rows ev') = replicate (length (rows ev')) v" using Cons l by simp
    then show ?thesis using b Next l r by (simp add: replicate_add)
  next
    case (Stop out)
    then show ?thesis using b r by simp
  qed
qed

lemma threads_rep_bins:
  "map c_bins (rows (fst (threads_rep draw a T bins r))) =
     replicate (length (rows (fst (threads_rep draw a T bins r)))) bins"
  by (simp add: threads_rep_def finish_rep_def split: sum.splits)

lemma omp_rep_bins:
  "map c_bins (rows (fst (omp_rep draw rt a bins r))) =
     replicate (length (rows (fst (omp_rep draw rt a bins r)))) bins"
  by (simp add: omp_rep_def finish_rep_def Let_def split: sum.splits option.splits)

lemma seq_rep_bins:
  "map c_bins (rows (fst (seq_rep draw a bins r))) =
     replicate (length (rows (fst (seq_rep draw a bins r)))) bins"
  by (simp add: seq_rep_def finish_rep_def split: sum.splits)

lemma main_bins:
  assumes "bins_of (normalise a) = Inr bins"
  shows "map c_bins (rows (fst (threads_main draw a))) =
           replicate (length (rows (fst (threads_main draw a)))) bins"
    and "map c_bins (rows (fst (omp_main draw rt a))) =
           replicate (length (rows (fst (omp_main draw rt a)))) bins"
    and "map c_bins (rows (fst (seq_main draw a))) =
           replicate (length (rows (fst (seq_main draw a)))) bins"
  using assms
  by (simp_all add: threads_main_def omp_main_def seq_main_def Let_def
      rows_rep_loop threads_rep_bins omp_rep_bins seq_rep_bins)

lemma normalise_swap:
  "y < x \<Longrightarrow> normalise (a\<lparr>minv := x, maxv := y\<rparr>) = a\<lparr>minv := y, maxv := x\<rparr>"
  "y < x \<Longrightarrow> normalise (a\<lparr>minv := y, maxv := x\<rparr>) = a\<lparr>minv := y, maxv := x\<rparr>"
  by (simp_all add: normalise_def)

text \<open>
  C9 (range normalization). A run given \<open>min = 10, max = 0\<close> is the run given
  \<open>min = 0, max = 10\<close>: the bounds are swapped before anything is derived from them, the
  number of bins is 11, and the three programs produce the same datasets, arrays, lines
  and exit status for the two inputs; every line shows 11 bins. The same holds for any
  two bounds given in the wrong order.
\<close>

theorem range_normalization:
  "normalise (a\<lparr>minv := 10, maxv := 0\<rparr>) = a\<lparr>minv := 0, maxv := 10\<rparr> \<and>
   normalise (a\<lparr>minv := 0, maxv := 10\<rparr>) = a\<lparr>minv := 0, maxv := 10\<rparr> \<and>
   bins_of (normalise (a\<lparr>minv := 10, maxv := 0\<rparr>)) = Inr 11 \<and>
   threads_main draw (a\<lparr>minv := 10, maxv := 0\<rparr>) = threads_main draw (a\<lparr>minv := 0, maxv := 10\<rparr>) \<and>
   omp_main draw rt (a\<lparr>minv := 10, maxv := 0\<rparr>) = omp_main draw rt (a\<lparr>minv := 0, maxv := 10\<rparr>) \<and>
   seq_main draw (a\<lparr>minv := 10, maxv := 0\<rparr>) = seq_main draw (a\<lparr>minv := 0, maxv := 10\<rparr>) \<and>
   map c_bins (rows (fst (threads_main draw (a\<lparr>minv := 10, maxv := 0\<rparr>)))) =
     replicate (length (rows (fst (threads_main draw (a\<lparr>minv := 10, maxv := 0\<rparr>))))) 11 \<and>
   map c_bins (rows (fst (omp_main draw rt (a\<lparr>minv := 10, maxv := 0\<rparr>)))) =
     replicate (length (rows (fst (omp_main draw rt (a\<lparr>minv := 10, maxv := 0\<rparr>))))) 11 \<and>
   map c_bins (rows (fst (seq_main draw (a\<lparr>minv := 10, maxv := 0\<rparr>)))) =
     replicate (length (rows (fst (seq_main draw (a\<lparr>minv := 10, maxv := 0\<rparr>))))) 11 \<and>
   (\<forall>x y. y < x \<longrightarrow>
      normalise (a\<lparr>minv := x, maxv := y\<rparr>) = a\<lparr>minv := y, maxv := x\<rparr> \<and>
      threads_main draw (a\<lparr>minv := x, maxv := y\<rparr>) = threads_main draw (a\<lparr>minv := y, maxv := x\<rparr>) \<and>
      omp_main draw rt (a\<lparr>minv := x, maxv := y\<rparr>) = omp_main draw rt (a\<lparr>minv := y, maxv := x\<rparr>) \<and>
      seq_main draw (a\<lparr>minv := x, maxv := y\<rparr>) = seq_main draw (a\<lparr>minv := y, maxv := x\<rparr>))"
proof -
  have g: "\<forall>x y. y < x \<longrightarrow>
      normalise (a\<lparr>minv := x, maxv := y\<rparr>) = a\<lparr>minv := y, maxv := x\<rparr> \<and>
      threads_main draw (a\<lparr>minv := x, maxv := y\<rparr>) = threads_main draw (a\<lparr>minv := y, maxv := x\<rparr>) \<and>
      omp_main draw rt (a\<lparr>minv := x, maxv := y\<rparr>) = omp_main draw rt (a\<lparr>minv := y, maxv := x\<rparr>) \<and>
      seq_main draw (a\<lparr>minv := x, maxv := y\<rparr>) = seq_main draw (a\<lparr>minv := y, maxv := x\<rparr>)"
  proof (intro allI impI)
    fix x y :: int assume "y < x"
    note w = normalise_swap [OF this, of a]
    have "threads_main draw (a\<lparr>minv := x, maxv := y\<rparr>) = threads_main draw (a\<lparr>minv := y, maxv := x\<rparr>)"
      unfolding threads_main_def w ..
    moreover have "omp_main draw rt (a\<lparr>minv := x, maxv := y\<rparr>) = omp_main draw rt (a\<lparr>minv := y, maxv := x\<rparr>)"
      unfolding omp_main_def w ..
    moreover have "seq_main draw (a\<lparr>minv := x, maxv := y\<rparr>) = seq_main draw (a\<lparr>minv := y, maxv := x\<rparr>)"
      unfolding seq_main_def w ..
    ultimately show "normalise (a\<lparr>minv := x, maxv := y\<rparr>) = a\<lparr>minv := y, maxv := x\<rparr> \<and>
      threads_main draw (a\<lparr>minv := x, maxv := y\<rparr>) = threads_main draw (a\<lparr>minv := y, maxv := x\<rparr>) \<and>
      omp_main draw rt (a\<lparr>minv := x, maxv := y\<rparr>) = omp_main draw rt (a\<lparr>minv := y, maxv := x\<rparr>) \<and>
      seq_main draw (a\<lparr>minv := x, maxv := y\<rparr>) = seq_main draw (a\<lparr>minv := y, maxv := x\<rparr>)"
      using w(1) by simp
  qed
  have n: "normalise (a\<lparr>minv := 10, maxv := 0\<rparr>) = a\<lparr>minv := 0, maxv := 10\<rparr>"
    "normalise (a\<lparr>minv := 0, maxv := 10\<rparr>) = a\<lparr>minv := 0, maxv := 10\<rparr>"
    using normalise_swap [of 0 10 a] by simp_all
  have b: "bins_of (normalise (a\<lparr>minv := 10, maxv := 0\<rparr>)) = Inr 11"
    unfolding n by (simp add: bins_of_def INT_MAX_def)
  have t: "threads_main draw (a\<lparr>minv := 10, maxv := 0\<rparr>) = threads_main draw (a\<lparr>minv := 0, maxv := 10\<rparr>)"
    unfolding threads_main_def n ..
  have p: "omp_main draw rt (a\<lparr>minv := 10, maxv := 0\<rparr>) = omp_main draw rt (a\<lparr>minv := 0, maxv := 10\<rparr>)"
    unfolding omp_main_def n ..
  have s: "seq_main draw (a\<lparr>minv := 10, maxv := 0\<rparr>) = seq_main draw (a\<lparr>minv := 0, maxv := 10\<rparr>)"
    unfolding seq_main_def n ..
  note m1 = main_bins(1) [OF b, of draw]
  note m2 = main_bins(2) [OF b, of draw rt]
  note m3 = main_bins(3) [OF b, of draw]
  show ?thesis by (intro conjI) (fact n b t p s m1 m2 m3 g)+
qed

theorem range_normalization_witness:
  "threads_main toy_draw
     (\<lparr>N = 4, minv = 3, maxv = 5, seed = 7, rep = 1, variant = ''atomic'', threads = 2\<rparr>\<lparr>minv := 10, maxv := 0\<rparr>) =
   threads_main toy_draw
     (\<lparr>N = 4, minv = 3, maxv = 5, seed = 7, rep = 1, variant = ''atomic'', threads = 2\<rparr>\<lparr>minv := 0, maxv := 10\<rparr>) \<and>
   omp_main toy_draw (gomp 8)
     (\<lparr>N = 4, minv = 3, maxv = 5, seed = 7, rep = 1, variant = ''atomic'', threads = 2\<rparr>\<lparr>minv := 10, maxv := 0\<rparr>) =
   omp_main toy_draw (gomp 8)
     (\<lparr>N = 4, minv = 3, maxv = 5, seed = 7, rep = 1, variant = ''atomic'', threads = 2\<rparr>\<lparr>minv := 0, maxv := 10\<rparr>) \<and>
   seq_main toy_draw
     (\<lparr>N = 4, minv = 3, maxv = 5, seed = 7, rep = 1, variant = ''atomic'', threads = 2\<rparr>\<lparr>minv := 10, maxv := 0\<rparr>) =
   seq_main toy_draw
     (\<lparr>N = 4, minv = 3, maxv = 5, seed = 7, rep = 1, variant = ''atomic'', threads = 2\<rparr>\<lparr>minv := 0, maxv := 10\<rparr>) \<and>
   bins_of (normalise
     (\<lparr>N = 4, minv = 3, maxv = 5, seed = 7, rep = 1, variant = ''atomic'', threads = 2\<rparr>\<lparr>minv := 10, maxv := 0\<rparr>)) = Inr 11"
  using range_normalization
    [of "\<lparr>N = 4, minv = 3, maxv = 5, seed = 7, rep = 1, variant = ''atomic'', threads = 2\<rparr>" toy_draw "gomp 8"]
  by blast

section \<open>One worker\<close>

lemma count_range_length: "count_range data mn js h = Inr h' \<Longrightarrow> length h' = length h"
proof (induction js arbitrary: h)
  case Nil
  then show ?case by simp
next
  case (Cons i js)
  then obtain h1 where h1: "bump data mn i h = Inr h1" and r: "count_range data mn js h1 = Inr h'"
    by (auto split: sum.splits)
  from Cons.IH [OF r] bump_length [OF h1] show ?case by simp
qed

lemma locked_bump_free_any:
  assumes "\<forall>b<length m. \<not> m ! b" "length m = length h"
  shows "locked_bump data mn i (h, m) =
           (case bump data mn i h of Inl e \<Rightarrow> Inl e | Inr h' \<Rightarrow> Inr (h', m))"
proof (cases "bin_index data mn (length h) i")
  case None
  then show ?thesis using assms(2) by (simp add: locked_bump_def bump_def)
next
  case (Some b)
  from locked_bump_free [OF assms Some] Some show ?thesis by (simp add: bump_def)
qed

lemma count_locked_free_any:
  assumes "\<forall>b<length m. \<not> m ! b" "length m = length h"
  shows "count_locked data mn js (h, m) =
           (case count_range data mn js h of Inl e \<Rightarrow> Inl e | Inr h' \<Rightarrow> Inr (h', m))"
  using assms(2)
proof (induction js arbitrary: h)
  case Nil
  then show ?case by simp
next
  case (Cons i js)
  note lb = locked_bump_free_any [OF assms(1) Cons.prems, of data mn i]
  show ?case
  proof (cases "bump data mn i h")
    case (Inl e)
    then show ?thesis using lb by simp
  next
    case (Inr h1)
    have "length m = length h1" using bump_length [OF Inr] Cons.prems by simp
    from Cons.IH [OF this] Inr lb show ?thesis by simp
  qed
qed

lemma add_row_zero:
  assumes "length l = bins"
  shows "add_row l [0..<bins] (replicate bins 0) = Inr l"
proof -
  have "add_row l [0..<bins] (replicate bins 0) =
          Inr (map (\<lambda>b. if b < bins then replicate bins 0 ! b + l ! b else replicate bins 0 ! b)
                 [0..<length (replicate bins (0::nat))])"
    by (rule add_row_upto) (use assms in simp_all)
  moreover have "map (\<lambda>b. if b < bins then replicate bins 0 ! b + l ! b else replicate bins 0 ! b)
                 [0..<length (replicate bins (0::nat))] = l"
    using assms by (intro nth_equalityI) auto
  ultimately show ?thesis by simp
qed

lemma one_worker_hist:
  "hist_private data mn n chunk 1 bins = count_range data mn (span n chunk 0) (replicate bins 0)"
  "hist_atomic data mn n chunk 1 bins = count_range data mn (span n chunk 0) (replicate bins 0)"
  "hist_mutex data mn n chunk 1 bins = count_range data mn (span n chunk 0) (replicate bins 0)"
proof -
  let ?r = "count_range data mn (span n chunk 0) (replicate bins 0)"
  show "hist_atomic data mn n chunk 1 bins = ?r"
    by (cases ?r) (simp_all add: hist_atomic_def)
  show "hist_mutex data mn n chunk 1 bins = ?r"
    using count_locked_free_any [of "replicate bins False" "replicate bins 0" data mn "span n chunk 0"]
    by (cases ?r) (simp_all add: hist_mutex_def)
  show "hist_private data mn n chunk 1 bins = ?r"
  proof (cases ?r)
    case (Inl e)
    then show ?thesis by (simp add: hist_private_def private_worker_def)
  next
    case (Inr l)
    then have "length l = bins" using count_range_length by fastforce
    then show ?thesis using Inr
      by (simp add: hist_private_def private_worker_def merge_local_def add_row_zero)
  qed
qed

lemma rep_loop_similar:
  assumes "\<And>r. snd (b1 r) = snd (b2 r) \<and> datasets (fst (b1 r)) = datasets (fst (b2 r)) \<and>
             histograms (fst (b1 r)) = histograms (fst (b2 r))"
  shows "snd (rep_loop b1 rs) = snd (rep_loop b2 rs) \<and>
         datasets (fst (rep_loop b1 rs)) = datasets (fst (rep_loop b2 rs)) \<and>
         histograms (fst (rep_loop b1 rs)) = histograms (fst (rep_loop b2 rs))"
proof (induction rs)
  case Nil
  then show ?case by simp
next
  case (Cons r rs)
  obtain e1 c e2 where b: "b1 r = (e1, c)" "b2 r = (e2, c)"
    using assms [of r] by (cases "b1 r"; cases "b2 r") auto
  have e: "datasets e1 = datasets e2" "histograms e1 = histograms e2"
    using assms [of r] b by simp_all
  show ?case
  proof (cases c)
    case Next
    obtain e1' o1 e2' o2 where l: "rep_loop b1 rs = (e1', o1)" "rep_loop b2 rs = (e2', o2)"
      by (cases "rep_loop b1 rs"; cases "rep_loop b2 rs") auto
    with Cons show ?thesis using b e Next by simp
  next
    case (Stop out)
    then show ?thesis using b e by simp
  qed
qed

lemma one_thread_rep:
  assumes "N a < 18446744073709551616"
  shows "worker_seed (seed a) 0 r = u32 (seed a + r * 17)"
    and "chunk_of (N a) (u64_of_int 1) = Inr (N a)"
    and "span (N a) (N a) 0 = [0..<N a]"
    and "threads_gen draw a 1 (N a) r = seq_gen draw a r"
    and "threads_hist a data (N a) 1 bins = seq_hist a data bins"
proof -
  show s: "worker_seed (seed a) 0 r = u32 (seed a + r * 17)" by (simp add: worker_seed_def)
  show "chunk_of (N a) (u64_of_int 1) = Inr (N a)"
    using assms by (simp add: chunk_of_def u64_of_int_def u64_id)
  show sp: "span (N a) (N a) 0 = [0..<N a]"
    using assms by (simp add: span_def start_of_def end_of_def u64_def)
  show "threads_gen draw a 1 (N a) r = seq_gen draw a r"
    by (cases "seq_gen draw a r") (simp_all add: threads_gen_def gen_worker_def seq_gen_def s sp)
  show "threads_hist a data (N a) 1 bins = seq_hist a data bins"
    by (simp add: threads_hist_def one_worker_hist sp seq_hist_def del: One_nat_def)
qed

lemma one_thread_rep_similar:
  assumes "N a < 18446744073709551616"
  shows "snd (threads_rep draw a 1 bins r) = snd (seq_rep draw a bins r) \<and>
         datasets (fst (threads_rep draw a 1 bins r)) = datasets (fst (seq_rep draw a bins r)) \<and>
         histograms (fst (threads_rep draw a 1 bins r)) = histograms (fst (seq_rep draw a bins r))"
  using one_thread_rep(2,4,5) [OF assms]
  by (simp add: threads_rep_def seq_rep_def finish_rep_def split: sum.splits)

text \<open>
  C10 (one thread is the baseline). With one worker the thread backend seeds its only
  generator with \<open>seed + r * 17\<close>, as the baseline does, and gives it the whole range
  \<open>0 .. N - 1\<close>; generation and counting are then the baseline's, for each of the three
  variants, so a run with \<open>--threads 1\<close> produces the baseline's datasets, arrays and exit
  status.
\<close>

theorem single_thread_matches_baseline:
  assumes "N a < 18446744073709551616"
  shows "worker_seed (seed a) 0 r = u32 (seed a + r * 17) \<and>
         chunk_of (N a) (u64_of_int 1) = Inr (N a) \<and>
         span (N a) (N a) 0 = [0..<N a] \<and>
         threads_gen draw a 1 (N a) r = seq_gen draw a r \<and>
         (\<forall>data bins. threads_hist a data (N a) 1 bins = seq_hist a data bins) \<and>
         (threads a = 1 \<and> (variant a = ''private'' \<or> variant a = ''atomic'' \<or> variant a = ''mutex'') \<longrightarrow>
            datasets (fst (threads_main draw a)) = datasets (fst (seq_main draw a)) \<and>
            histograms (fst (threads_main draw a)) = histograms (fst (seq_main draw a)) \<and>
            snd (threads_main draw a) = snd (seq_main draw a))"
proof -
  have m: "datasets (fst (threads_main draw a)) = datasets (fst (seq_main draw a)) \<and>
            histograms (fst (threads_main draw a)) = histograms (fst (seq_main draw a)) \<and>
            snd (threads_main draw a) = snd (seq_main draw a)"
    if t: "threads a = 1" and v: "variant a = ''private'' \<or> variant a = ''atomic'' \<or> variant a = ''mutex''"
  proof (cases "bins_of (normalise a)")
    case (Inl e)
    then show ?thesis by (simp add: threads_main_def seq_main_def)
  next
    case (Inr bins)
    have n: "N (normalise a) < 18446744073709551616" using assms by simp
    note L = rep_loop_similar [of "threads_rep draw (normalise a) 1 bins" "seq_rep draw (normalise a) bins"
        "[0..<nat (rep a)]", OF one_thread_rep_similar [OF n]]
    have "threads_main draw a = rep_loop (threads_rep draw (normalise a) 1 bins) [0..<nat (rep a)]"
      using Inr t v by (auto simp: threads_main_def Let_def)
    moreover have "seq_main draw a = rep_loop (seq_rep draw (normalise a) bins) [0..<nat (rep a)]"
      using Inr by (simp add: seq_main_def Let_def)
    ultimately show ?thesis using L by simp
  qed
  show ?thesis using one_thread_rep [OF assms] m by blast
qed

theorem single_thread_matches_baseline_witness:
  "N \<lparr>N = 10, minv = 0, maxv = 9, seed = 42, rep = 2, variant = ''mutex'', threads = 1\<rparr> < 18446744073709551616 \<and>
   worker_seed 42 0 1 = u32 (42 + 1 * 17) \<and>
   threads_gen toy_draw \<lparr>N = 10, minv = 0, maxv = 9, seed = 42, rep = 2, variant = ''mutex'', threads = 1\<rparr> 1 10 1 =
     seq_gen toy_draw \<lparr>N = 10, minv = 0, maxv = 9, seed = 42, rep = 2, variant = ''mutex'', threads = 1\<rparr> 1 \<and>
   datasets (fst (threads_main toy_draw
      \<lparr>N = 10, minv = 0, maxv = 9, seed = 42, rep = 2, variant = ''mutex'', threads = 1\<rparr>)) =
   datasets (fst (seq_main toy_draw
      \<lparr>N = 10, minv = 0, maxv = 9, seed = 42, rep = 2, variant = ''mutex'', threads = 1\<rparr>)) \<and>
   histograms (fst (threads_main toy_draw
      \<lparr>N = 10, minv = 0, maxv = 9, seed = 42, rep = 2, variant = ''mutex'', threads = 1\<rparr>)) =
   histograms (fst (seq_main toy_draw
      \<lparr>N = 10, minv = 0, maxv = 9, seed = 42, rep = 2, variant = ''mutex'', threads = 1\<rparr>))"
proof -
  let ?a = "\<lparr>N = 10, minv = 0, maxv = 9, seed = 42, rep = 2, variant = ''mutex'', threads = 1\<rparr>"
  have n: "N ?a < 18446744073709551616" by simp
  from single_thread_matches_baseline [OF n, of 1 toy_draw] n show ?thesis by simp
qed

section \<open>The two backends\<close>

lemma for_each_cong:
  assumes "\<And>t s. t \<in> set ts \<Longrightarrow> w1 t s = w2 t s"
  shows "for_each w1 ts s = for_each w2 ts s"
  using assms by (induction ts arbitrary: s) (auto split: sum.splits)

lemma same_partition:
  assumes "0 < T" "N a < 9223372036854775808" "T \<le> 2147483647"
    and "\<forall>t<T. rt_static rt (N a) T t = span (N a) ((N a + T - 1) div T) t"
  shows "omp_gen draw rt a T = threads_gen draw a T ((N a + T - 1) div T)"
    and "static_covers rt (N a) T"
proof -
  have trip: "ll_trip (N a) = N a" using assms(2) by (simp add: ll_trip_def)
  have "omp_gen draw rt a T r = threads_gen draw a T ((N a + T - 1) div T) r" for r
    unfolding omp_gen_def threads_gen_def
    by (rule for_each_cong) (use assms(4) in \<open>simp add: omp_gen_worker_def gen_worker_def trip\<close>)
  then show "omp_gen draw rt a T = threads_gen draw a T ((N a + T - 1) div T)" by (rule ext)
  have m: "map (rt_static rt (N a) T) [0..<T] = map (span (N a) ((N a + T - 1) div T)) [0..<T]"
    using assms(4) by simp
  have c: "concat (map (span (N a) ((N a + T - 1) div T)) [0..<T]) = [0..<N a]"
    using assms(1,2,3) by (intro spans_cover) simp_all
  show "static_covers rt (N a) T" unfolding static_covers_def m c ..
qed

text \<open>
  C2, as amended. When the OpenMP runtime runs the team that was asked for and its static
  schedule gives thread \<open>t\<close> the indices from \<open>t * chunk\<close> up to
  \<open>min N ((t + 1) * chunk)\<close> with \<open>chunk = ceil(N / T)\<close>, as the thread backend does,
  the two backends produce the same datasets and the same arrays, bin for bin, in every
  repetition.
\<close>

theorem backend_equivalence_same_partition:
  assumes "draws_in_range draw" "N a < 9223372036854775808" "0 < threads a" "threads a \<le> INT_MAX"
    and "bins_of (normalise a) = Inr bins"
    and "variant a = ''private'' \<or> variant a = ''atomic'' \<or> variant a = ''mutex''"
    and "rt_team rt (Some (nat (threads a))) = nat (threads a)"
    and "\<forall>t<nat (threads a). rt_static rt (N a) (nat (threads a)) t =
           span (N a) ((N a + nat (threads a) - 1) div nat (threads a)) t"
  shows "datasets (fst (omp_main draw rt a)) = datasets (fst (threads_main draw a)) \<and>
         histograms (fst (omp_main draw rt a)) = histograms (fst (threads_main draw a)) \<and>
         length (histograms (fst (threads_main draw a))) = nat (rep a) \<and>
         snd (omp_main draw rt a) = snd (threads_main draw a)"
proof -
  let ?T = "nat (threads a)"
  have T: "0 < ?T" "?T \<le> 2147483647" using assms(3,4) by (simp_all add: INT_MAX_def)
  have team: "omp_team rt a = ?T" "team a = threads a"
    using assms(3,7) by (simp_all add: omp_team_def team_def)
  have n: "N (normalise a) < 9223372036854775808" using assms(2) by simp
  have s: "\<forall>t<?T. rt_static rt (N (normalise a)) ?T t =
           span (N (normalise a)) ((N (normalise a) + ?T - 1) div ?T) t"
    using assms(8) by simp
  note S = same_partition [OF T(1) n T(2) s]
  have c: "static_covers rt (N a) (omp_team rt a)" using S(2) by (simp add: team)
  have d: "omp_data draw rt a = threads_data draw a"
    by (rule ext) (simp add: omp_data_def threads_data_def team S(1))
  note P = omp_main_run(1) [OF assms(1,2,5,6) c]
  note R = threads_main_run(1) [OF assms(1,2,4,5,6)]
  show ?thesis unfolding P R d by simp
qed

theorem backend_equivalence_same_partition_witness:
  "draws_in_range toy_draw \<and>
   bins_of (normalise \<lparr>N = 8, minv = 0, maxv = 9, seed = 42, rep = 1, variant = ''private'', threads = 4\<rparr>) = Inr 10 \<and>
   rt_team (gomp 8) (Some 4) = 4 \<and>
   map (rt_static (gomp 8) 8 4) [0..<4] = map (span 8 2) [0..<4] \<and>
   datasets (fst (omp_main toy_draw (gomp 8)
      \<lparr>N = 8, minv = 0, maxv = 9, seed = 42, rep = 1, variant = ''private'', threads = 4\<rparr>)) =
   datasets (fst (threads_main toy_draw
      \<lparr>N = 8, minv = 0, maxv = 9, seed = 42, rep = 1, variant = ''private'', threads = 4\<rparr>)) \<and>
   histograms (fst (omp_main toy_draw (gomp 8)
      \<lparr>N = 8, minv = 0, maxv = 9, seed = 42, rep = 1, variant = ''private'', threads = 4\<rparr>)) =
   histograms (fst (threads_main toy_draw
      \<lparr>N = 8, minv = 0, maxv = 9, seed = 42, rep = 1, variant = ''private'', threads = 4\<rparr>)) \<and>
   length (histograms (fst (threads_main toy_draw
      \<lparr>N = 8, minv = 0, maxv = 9, seed = 42, rep = 1, variant = ''private'', threads = 4\<rparr>))) = 1"
proof -
  let ?a = "\<lparr>N = 8, minv = 0, maxv = 9, seed = 42, rep = 1, variant = ''private'', threads = 4\<rparr>"
  have b: "bins_of (normalise ?a) = Inr 10"
    by (simp add: bins_of_def normalise_def INT_MAX_def)
  have t: "rt_team (gomp 8) (Some 4) = 4" by (simp add: gomp_def)
  have m: "map (rt_static (gomp 8) 8 4) [0..<4] = map (span 8 2) [0..<4]"
    by (simp add: gomp_def gomp_static_def span_def start_of_def end_of_def u64_def upt_rec)
  have e: "\<forall>t<nat (threads ?a). rt_static (gomp 8) (N ?a) (nat (threads ?a)) t =
           span (N ?a) ((N ?a + nat (threads ?a) - 1) div nat (threads ?a)) t"
  proof (intro allI impI)
    fix t assume "t < nat (threads ?a)"
    then have "t \<in> set [0..<4]" by simp
    then have "map (rt_static (gomp 8) 8 4) [0..<4] ! t = map (span 8 2) [0..<4] ! t"
      using m by simp
    then show "rt_static (gomp 8) (N ?a) (nat (threads ?a)) t =
           span (N ?a) ((N ?a + nat (threads ?a) - 1) div nat (threads ?a)) t"
      using \<open>t < nat (threads ?a)\<close> by simp
  qed
  have h: "N ?a < 9223372036854775808" "0 < threads ?a" "threads ?a \<le> INT_MAX"
    "rt_team (gomp 8) (Some (nat (threads ?a))) = nat (threads ?a)"
    using t by (simp_all add: INT_MAX_def)
  from backend_equivalence_same_partition [OF toy_draw_in_range h(1,2,3) b _ h(4) e]
  show ?thesis using toy_draw_in_range b t m by simp
qed

theorem backend_equivalence_counterexample:
  "rt_team (gomp 8) (Some 4) = 4 \<and>
   map (rt_static (gomp 8) 10 4) [0..<4] = [[0, 1, 2], [3, 4, 5], [6, 7], [8, 9]] \<and>
   map (span 10 3) [0..<4] = [[0, 1, 2], [3, 4, 5], [6, 7, 8], [9]] \<and>
   threads_main toy_draw
     \<lparr>N = 10, minv = 0, maxv = 9, seed = 42, rep = 1, variant = ''atomic'', threads = 4\<rparr> =
     ([Generated [2, 5, 8, 9, 2, 5, 6, 9, 2, 3],
       Counted [0, 0, 3, 1, 0, 2, 1, 0, 1, 2],
       Stdout \<lparr>c_backend = ''threads'', c_variant = ''atomic'', c_threads = 4, c_N = 10,
                c_bins = 10, c_min = 0, c_max = 9, c_seed = 42, c_sum_hist = 10\<rparr>], Exit 0) \<and>
   omp_main toy_draw (gomp 8)
     \<lparr>N = 10, minv = 0, maxv = 9, seed = 42, rep = 1, variant = ''atomic'', threads = 4\<rparr> =
     ([Generated [2, 5, 8, 9, 2, 5, 6, 9, 3, 6],
       Counted [0, 0, 2, 1, 0, 2, 2, 0, 1, 2],
       Stdout \<lparr>c_backend = ''openmp'', c_variant = ''atomic'', c_threads = 4, c_N = 10,
                c_bins = 10, c_min = 0, c_max = 9, c_seed = 42, c_sum_hist = 10\<rparr>], Exit 0) \<and>
   histograms (fst (threads_main toy_draw
     \<lparr>N = 10, minv = 0, maxv = 9, seed = 42, rep = 1, variant = ''atomic'', threads = 4\<rparr>)) \<noteq>
   histograms (fst (omp_main toy_draw (gomp 8)
     \<lparr>N = 10, minv = 0, maxv = 9, seed = 42, rep = 1, variant = ''atomic'', threads = 4\<rparr>))"
  by (simp add: run_defs)

section \<open>The harness at the edges\<close>

lemma normalise_threads: "normalise (a\<lparr>threads := k\<rparr>) = (normalise a)\<lparr>threads := k\<rparr>"
  by (simp add: normalise_def)

lemma bins_of_threads: "bins_of (b\<lparr>threads := k\<rparr>) = bins_of b"
  by (simp add: bins_of_def)

lemma omp_gen_threads: "omp_gen draw rt (b\<lparr>threads := k\<rparr>) = omp_gen draw rt b"
  by (rule omp_gen_cong) simp_all

lemma omp_hist_threads: "omp_hist rt (b\<lparr>threads := k\<rparr>) = omp_hist rt b"
proof -
  have sel: "variant (b\<lparr>threads := k\<rparr>) = variant b" "minv (b\<lparr>threads := k\<rparr>) = minv b"
    "N (b\<lparr>threads := k\<rparr>) = N b" by simp_all
  show ?thesis unfolding omp_hist_def [abs_def] sel ..
qed

lemma finish_rep_threads: "finish_rep s v T (b\<lparr>threads := k\<rparr>) = finish_rep s v T b"
  by (simp add: finish_rep_def [abs_def])

lemma omp_rep_threads:
  assumes "omp_team rt (b\<lparr>threads := k\<rparr>) = omp_team rt b"
  shows "omp_rep draw rt (b\<lparr>threads := k\<rparr>) = omp_rep draw rt b"
proof -
  have v: "variant (b\<lparr>threads := k\<rparr>) = variant b" by simp
  show ?thesis
    unfolding omp_rep_def [abs_def] assms omp_gen_threads omp_hist_threads finish_rep_threads v ..
qed

text \<open>
  C6, as amended. A thread count that is not positive is not an error. The thread backend
  replaces it by 4 and runs as if 4 had been given; the OpenMP backend does not call
  \<open>omp_set_num_threads\<close> and runs with the team the runtime chooses, the same for
  every such count.
\<close>

theorem nonpositive_threads_coerced:
  assumes "threads a \<le> 0"
  shows "threads_main draw a = threads_main draw (a\<lparr>threads := 4\<rparr>) \<and>
         team a = 4 \<and>
         omp_team rt a = rt_team rt None \<and>
         omp_main draw rt a = omp_main draw rt (a\<lparr>threads := - 1\<rparr>)"
proof -
  have t: "threads_main draw a = threads_main draw (a\<lparr>threads := 4\<rparr>)"
    using assms
    by (cases "bins_of (normalise a)")
       (simp_all add: threads_main_def normalise_threads bins_of_threads Let_def)
  have tm: "omp_team rt ((normalise a)\<lparr>threads := - 1\<rparr>) = omp_team rt (normalise a)"
    using assms by (simp add: omp_team_def)
  have "omp_main draw rt (a\<lparr>threads := - 1\<rparr>) = omp_main draw rt a"
    by (cases "bins_of (normalise a)")
       (simp_all add: omp_main_def Let_def normalise_threads bins_of_threads omp_rep_threads [OF tm])
  then show ?thesis using t assms by (simp add: team_def omp_team_def)
qed

theorem nonpositive_threads_coerced_witness:
  "threads \<lparr>N = 5, minv = 0, maxv = 9, seed = 42, rep = 1, variant = ''atomic'', threads = 0\<rparr> \<le> 0 \<and>
   threads_main toy_draw \<lparr>N = 5, minv = 0, maxv = 9, seed = 42, rep = 1, variant = ''atomic'', threads = 0\<rparr> =
   threads_main toy_draw \<lparr>N = 5, minv = 0, maxv = 9, seed = 42, rep = 1, variant = ''atomic'', threads = 4\<rparr> \<and>
   omp_team (gomp 8) \<lparr>N = 5, minv = 0, maxv = 9, seed = 42, rep = 1, variant = ''atomic'', threads = 0\<rparr> = 8 \<and>
   omp_main toy_draw (gomp 8) \<lparr>N = 5, minv = 0, maxv = 9, seed = 42, rep = 1, variant = ''atomic'', threads = 0\<rparr> =
   omp_main toy_draw (gomp 8) \<lparr>N = 5, minv = 0, maxv = 9, seed = 42, rep = 1, variant = ''atomic'', threads = - 1\<rparr>"
proof -
  let ?a = "\<lparr>N = 5, minv = 0, maxv = 9, seed = 42, rep = 1, variant = ''atomic'', threads = 0\<rparr>"
  have h: "threads ?a \<le> 0" by simp
  have g: "rt_team (gomp 8) None = 8" by (simp add: gomp_def)
  from nonpositive_threads_coerced [OF h, of toy_draw "gomp 8"] g show ?thesis by simp
qed

theorem nonpositive_threads_counterexample:
  "threads_main toy_draw
     \<lparr>N = 5, minv = 0, maxv = 9, seed = 42, rep = 1, variant = ''atomic'', threads = 0\<rparr> =
     ([Generated [2, 5, 9, 2, 6],
       Counted [0, 0, 2, 0, 0, 1, 1, 0, 0, 1],
       Stdout \<lparr>c_backend = ''threads'', c_variant = ''atomic'', c_threads = 4, c_N = 5,
                c_bins = 10, c_min = 0, c_max = 9, c_seed = 42, c_sum_hist = 5\<rparr>], Exit 0) \<and>
   omp_main toy_draw (gomp 8)
     \<lparr>N = 5, minv = 0, maxv = 9, seed = 42, rep = 1, variant = ''atomic'', threads = 0\<rparr> =
     ([Generated [2, 9, 6, 3, 0],
       Counted [1, 0, 1, 1, 0, 0, 1, 0, 0, 1],
       Stdout \<lparr>c_backend = ''openmp'', c_variant = ''atomic'', c_threads = 8, c_N = 5,
                c_bins = 10, c_min = 0, c_max = 9, c_seed = 42, c_sum_hist = 5\<rparr>], Exit 0)"
  by (simp add: run_defs)

lemma rep_loop_sums:
  assumes "\<And>r. map f (rows (fst (body r))) = map g (histograms (fst (body r)))"
  shows "map f (rows (fst (rep_loop body rs))) = map g (histograms (fst (rep_loop body rs)))"
proof (induction rs)
  case Nil
  then show ?case by simp
next
  case (Cons r rs)
  obtain ev c where b: "body r = (ev, c)" by (cases "body r")
  have e: "map f (rows ev) = map g (histograms ev)" using assms [of r] b by simp
  show ?case
  proof (cases c)
    case Next
    obtain ev' out where l: "rep_loop body rs = (ev', out)" by (cases "rep_loop body rs")
    with Cons show ?thesis using b e Next by simp
  next
    case (Stop out)
    then show ?thesis using b e by simp
  qed
qed

lemma rep_sums:
  "map c_sum_hist (rows (fst (threads_rep draw a T bins r))) =
     map accumulate (histograms (fst (threads_rep draw a T bins r)))"
  "map c_sum_hist (rows (fst (omp_rep draw rt a bins r))) =
     map accumulate (histograms (fst (omp_rep draw rt a bins r)))"
  "map c_sum_hist (rows (fst (seq_rep draw a bins r))) =
     map accumulate (histograms (fst (seq_rep draw a bins r)))"
  by (simp_all add: threads_rep_def omp_rep_def seq_rep_def finish_rep_def Let_def
      split: sum.splits option.splits)

text \<open>
  C4, as amended. At the end of a repetition the harness adds up the bins and writes the
  sum as the last field of the line; it does not compare the sum with \<open>N\<close>. Whatever
  the sum is, the line is written and the loop goes on: in the three programs every
  array counted has its line, with its sum.
\<close>

theorem sum_hist_emitted_unchecked:
  "finish_rep backend var T a bins s =
     ([Stdout \<lparr>c_backend = backend, c_variant = var, c_threads = T, c_N = N a, c_bins = bins,
               c_min = minv a, c_max = maxv a, c_seed = seed a, c_sum_hist = s\<rparr>], Next) \<and>
   map c_sum_hist (rows (fst (threads_main draw a))) =
     map accumulate (histograms (fst (threads_main draw a))) \<and>
   map c_sum_hist (rows (fst (omp_main draw rt a))) =
     map accumulate (histograms (fst (omp_main draw rt a))) \<and>
   map c_sum_hist (rows (fst (seq_main draw a))) =
     map accumulate (histograms (fst (seq_main draw a)))"
proof -
  have "map c_sum_hist (rows (fst (threads_main draw a))) =
          map accumulate (histograms (fst (threads_main draw a)))"
    by (cases "bins_of (normalise a)")
       (simp_all add: threads_main_def Let_def rep_loop_sums rep_sums)
  moreover have "map c_sum_hist (rows (fst (omp_main draw rt a))) =
          map accumulate (histograms (fst (omp_main draw rt a)))"
    by (cases "bins_of (normalise a)")
       (simp_all add: omp_main_def Let_def rep_loop_sums rep_sums)
  moreover have "map c_sum_hist (rows (fst (seq_main draw a))) =
          map accumulate (histograms (fst (seq_main draw a)))"
    by (cases "bins_of (normalise a)")
       (simp_all add: seq_main_def Let_def rep_loop_sums rep_sums)
  ultimately show ?thesis by (simp add: finish_rep_def)
qed

theorem sum_hist_emitted_unchecked_witness:
  "finish_rep ''threads'' ''atomic'' 4
     \<lparr>N = 10, minv = 0, maxv = 9, seed = 42, rep = 1, variant = ''atomic'', threads = 4\<rparr> 10 10 =
     ([Stdout \<lparr>c_backend = ''threads'', c_variant = ''atomic'', c_threads = 4, c_N = 10,
               c_bins = 10, c_min = 0, c_max = 9, c_seed = 42, c_sum_hist = 10\<rparr>], Next) \<and>
   map c_sum_hist (rows (fst (threads_main toy_draw
     \<lparr>N = 10, minv = 0, maxv = 9, seed = 42, rep = 1, variant = ''atomic'', threads = 4\<rparr>))) =
   map accumulate (histograms (fst (threads_main toy_draw
     \<lparr>N = 10, minv = 0, maxv = 9, seed = 42, rep = 1, variant = ''atomic'', threads = 4\<rparr>)))"
  using sum_hist_emitted_unchecked
    [of "''threads''" "''atomic''" 4
      "\<lparr>N = 10, minv = 0, maxv = 9, seed = 42, rep = 1, variant = ''atomic'', threads = 4\<rparr>"
      10 10 toy_draw "gomp 8"]
  by simp

theorem integrity_check_counterexample:
  "finish_rep ''threads'' ''atomic'' 4
     \<lparr>N = 10, minv = 0, maxv = 9, seed = 42, rep = 1, variant = ''atomic'', threads = 4\<rparr> 10 7 =
     ([Stdout \<lparr>c_backend = ''threads'', c_variant = ''atomic'', c_threads = 4, c_N = 10,
               c_bins = 10, c_min = 0, c_max = 9, c_seed = 42, c_sum_hist = 7\<rparr>], Next) \<and>
   rep_loop (\<lambda>r. finish_rep ''threads'' ''atomic'' 4
     \<lparr>N = 10, minv = 0, maxv = 9, seed = 42, rep = 1, variant = ''atomic'', threads = 4\<rparr> 10 7) [0] =
     ([Stdout \<lparr>c_backend = ''threads'', c_variant = ''atomic'', c_threads = 4, c_N = 10,
               c_bins = 10, c_min = 0, c_max = 9, c_seed = 42, c_sum_hist = 7\<rparr>], Exit 0)"
  by (simp add: finish_rep_def)

text \<open>
  C5. The thread backend rejects an unsupported variant before the loop. The OpenMP
  backend reaches its rejection inside the loop, after the dataset of the first
  repetition has been generated, and not at all when no repetition is asked for.
\<close>

theorem openmp_rejects_variant_after_generation:
  "threads_main toy_draw
     \<lparr>N = 3, minv = 0, maxv = 9, seed = 42, rep = 1, variant = ''bogus'', threads = 4\<rparr> =
     ([Stderr (unsupported ''bogus'')], Exit 2) \<and>
   omp_main toy_draw (gomp 8)
     \<lparr>N = 3, minv = 0, maxv = 9, seed = 42, rep = 1, variant = ''bogus'', threads = 4\<rparr> =
     ([Generated [2, 9, 6], Stderr (unsupported ''bogus'')], Exit 2) \<and>
   omp_main toy_draw (gomp 8)
     \<lparr>N = 3, minv = 0, maxv = 9, seed = 42, rep = 0, variant = ''bogus'', threads = 4\<rparr> =
     ([], Exit 0)"
  by (simp add: run_defs)

end
